theory Spec2Isabelle
  imports Main
begin

section \<open>Python values, exceptions and strings\<close>

text \<open>
  The importer \<^verbatim>\<open>import_corpus.py\<close> works on rows of strings read from tab-separated
  files and on dictionaries from field names to values. A value of such a dictionary is
  \<^verbatim>\<open>None\<close>, a \<^verbatim>\<open>str\<close>, an \<^verbatim>\<open>int\<close> (the key of a Type record) or a \<^verbatim>\<open>bool\<close>
  (after the loose boolean coercion).

  A \<^verbatim>\<open>str\<close> is a \<open>string\<close>; each \<open>char\<close> stands for the code point of the same number
  (0 to 255), so the character tests below are the ones of Python on that range.
\<close>

datatype pyval = PNone | PStr string | PInt int | PBool bool

text \<open>An exception is modelled by its class; its message is dropped.\<close>

datatype exn =
    ValueError | IndexError | KeyError | AttributeError | TypeError
  | StopIteration | InvalidOperation | DatabaseError string

type_synonym row = "string list"
type_synonym entity = "string \<rightharpoonup> pyval"

text \<open>
  Python compares \<^verbatim>\<open>True\<close> and \<^verbatim>\<open>1\<close> (and \<^verbatim>\<open>False\<close> and \<^verbatim>\<open>0\<close>) as equal, also as
  members of a set and as keys of a dictionary; no other two values of different kinds
  are equal.
\<close>

fun py_key :: "pyval \<Rightarrow> pyval" where
  "py_key (PBool b) = PInt (if b then 1 else 0)"
| "py_key v = v"

definition py_eq :: "pyval \<Rightarrow> pyval \<Rightarrow> bool" where
  "py_eq a b = (py_key a = py_key b)"

text \<open>\<^verbatim>\<open>v in s\<close> and \<^verbatim>\<open>s.add(v)\<close> for a Python set \<open>s\<close>.\<close>

definition py_in :: "pyval \<Rightarrow> pyval set \<Rightarrow> bool" where
  "py_in v s = (\<exists>x\<in>s. py_eq x v)"

definition py_add :: "pyval \<Rightarrow> pyval set \<Rightarrow> pyval set" where
  "py_add v s = (if py_in v s then s else insert v s)"

text \<open>Sequencing of computations that may raise.\<close>

definition bind_exn :: "exn + 'a \<Rightarrow> ('a \<Rightarrow> exn + 'b) \<Rightarrow> exn + 'b" where
  "bind_exn m f = (case m of Inl e \<Rightarrow> Inl e | Inr x \<Rightarrow> f x)"

text \<open>\<^verbatim>\<open>d[key]\<close> on a dictionary with string keys raises \<^verbatim>\<open>KeyError\<close> on a missing key.\<close>

definition getitem :: "entity \<Rightarrow> string \<Rightarrow> exn + pyval" where
  "getitem d key = (case d key of None \<Rightarrow> Inl KeyError | Some v \<Rightarrow> Inr v)"

subsection \<open>Character classes and the parsers of the standard library\<close>

definition isdigit :: "char \<Rightarrow> bool" where
  "isdigit c = ((of_char c :: nat) \<in> {48..57})"

text \<open>\<^verbatim>\<open>str.isalpha\<close> on one character: the letters among the code points below 256.\<close>

definition isalpha :: "char \<Rightarrow> bool" where
  "isalpha c = ((of_char c :: nat) \<in>
     {65..90} \<union> {97..122} \<union> {170, 181, 186} \<union> {192..214} \<union> {216..246} \<union> {248..255})"

definition isspace :: "char \<Rightarrow> bool" where
  "isspace c = ((of_char c :: nat) \<in> {9..13} \<union> {28..32} \<union> {133, 160})"

text \<open>
  \<^verbatim>\<open>str.lower\<close> on one character: a capital letter below 256 moves up by 32, which
  sets the bit of value 32 in its code.
\<close>

definition lower_char :: "char \<Rightarrow> char" where
  "lower_char c =
     (if (of_char c :: nat) \<in> {65..90} \<union> {192..214} \<union> {216..222}
      then Char (digit0 c) (digit1 c) (digit2 c) (digit3 c) (digit4 c) True (digit6 c) (digit7 c)
      else c)"

definition lower :: "string \<Rightarrow> string" where
  "lower s = map lower_char s"

definition strip :: "string \<Rightarrow> string" where
  "strip s = rev (dropWhile isspace (rev (dropWhile isspace s)))"

definition drop_sign :: "string \<Rightarrow> string" where
  "drop_sign s = (case s of [] \<Rightarrow> [] | c # r \<Rightarrow> if c = CHR ''+'' \<or> c = CHR ''-'' then r else s)"

text \<open>
  \<^verbatim>\<open>int(s)\<close> for a string: surrounding white space is dropped, a sign may lead, and the
  digits may be grouped by single underscores. \<open>None\<close> stands for \<^verbatim>\<open>ValueError\<close>.
\<close>

fun digits_grouped :: "string \<Rightarrow> bool" where
  "digits_grouped [] = False"
| "digits_grouped [c] = isdigit c"
| "digits_grouped (c # d # r) =
     (isdigit c \<and> (if d = CHR ''_'' then digits_grouped r else digits_grouped (d # r)))"

definition digits_value :: "string \<Rightarrow> int" where
  "digits_value s = foldl (\<lambda>n c. 10 * n + (of_char c - 48)) 0 (filter isdigit s)"

definition int_of_str :: "string \<Rightarrow> int option" where
  "int_of_str s =
     (let t = strip s; u = drop_sign t in
      if digits_grouped u
      then Some (if t \<noteq> [] \<and> hd t = CHR ''-'' then - digits_value u else digits_value u)
      else None)"

text \<open>
  \<^verbatim>\<open>Decimal(s)\<close> for a string accepts, after dropping surrounding white space and every
  underscore: an optional sign, then either digits with an optional fraction and an
  optional exponent (at least one digit before the exponent), or \<^verbatim>\<open>Inf\<close>,
  \<^verbatim>\<open>Infinity\<close>, \<^verbatim>\<open>NaN\<close> or \<^verbatim>\<open>sNaN\<close> (in any case, the last two with optional digits).
  On any other string it raises \<^verbatim>\<open>decimal.InvalidOperation\<close>, a subclass of
  \<^verbatim>\<open>ArithmeticError\<close> and not of \<^verbatim>\<open>ValueError\<close>.
\<close>

definition decimal_exponent :: "string \<Rightarrow> bool" where
  "decimal_exponent s =
     (case s of [] \<Rightarrow> True
      | c # r \<Rightarrow> c = CHR ''e'' \<and> drop_sign r \<noteq> [] \<and> list_all isdigit (drop_sign r))"

definition decimal_number :: "string \<Rightarrow> bool" where
  "decimal_number s =
     (let ip = takeWhile isdigit s; r1 = dropWhile isdigit s in
      case r1 of
        CHR ''.'' # r \<Rightarrow>
          (ip \<noteq> [] \<or> takeWhile isdigit r \<noteq> []) \<and> decimal_exponent (dropWhile isdigit r)
      | _ \<Rightarrow> ip \<noteq> [] \<and> decimal_exponent r1)"

definition decimal_special :: "string \<Rightarrow> bool" where
  "decimal_special s =
     (s = ''inf'' \<or> s = ''infinity''
      \<or> (take 3 s = ''nan'' \<and> list_all isdigit (drop 3 s))
      \<or> (take 4 s = ''snan'' \<and> list_all isdigit (drop 4 s)))"

definition decimal_syntax :: "string \<Rightarrow> bool" where
  "decimal_syntax s =
     (let u = drop_sign (lower (filter (\<lambda>c. c \<noteq> CHR ''_'') (strip s)))
      in decimal_number u \<or> decimal_special u)"

text \<open>\<^verbatim>\<open>int(v)\<close>, \<^verbatim>\<open>Decimal(v)\<close> and \<^verbatim>\<open>len(v)\<close> on a value.\<close>

fun py_int :: "pyval \<Rightarrow> exn + int" where
  "py_int (PStr s) = (case int_of_str s of None \<Rightarrow> Inl ValueError | Some n \<Rightarrow> Inr n)"
| "py_int (PInt n) = Inr n"
| "py_int (PBool b) = Inr (if b then 1 else 0)"
| "py_int PNone = Inl TypeError"

fun py_Decimal :: "pyval \<Rightarrow> exn + unit" where
  "py_Decimal (PStr s) = (if decimal_syntax s then Inr () else Inl InvalidOperation)"
| "py_Decimal (PInt n) = Inr ()"
| "py_Decimal (PBool b) = Inr ()"
| "py_Decimal PNone = Inl TypeError"

fun py_len :: "pyval \<Rightarrow> exn + nat" where
  "py_len (PStr s) = Inr (length s)"
| "py_len v = Inl TypeError"

section \<open>TransformHelper\<close>

text \<open>
  A mapping \<^verbatim>\<open>d\<close> of the importer is a dictionary from field names to values, a map
  \<open>string \<rightharpoonup> pyval\<close>. Each helper walks \<^verbatim>\<open>d.items()\<close> and overwrites the value of every
  key that is in \<open>fields\<close>; the keys stay as they are.
\<close>

definition transform_empty_to_none :: "entity \<Rightarrow> string set \<Rightarrow> entity" where
  "transform_empty_to_none d fields =
     (\<lambda>key. if key \<in> fields
            then (case d key of
                    None \<Rightarrow> None
                  | Some val \<Rightarrow> Some (if val = PStr [] then PNone else val))
            else d key)"

text \<open>
  \<^verbatim>\<open>val.lower()\<close> raises \<^verbatim>\<open>AttributeError\<close> on a value that is not a string, whichever
  key of \<open>fields\<close> holds it.
\<close>

definition transform_invalid_booleans :: "entity \<Rightarrow> string set \<Rightarrow> string list \<Rightarrow> exn + entity" where
  "transform_invalid_booleans d fields true_values =
     (if \<exists>key\<in>fields. (case d key of None \<Rightarrow> False | Some (PStr s) \<Rightarrow> False | Some _ \<Rightarrow> True)
      then Inl AttributeError
      else Inr (\<lambda>key. if key \<in> fields
                      then (case d key of
                              Some (PStr s) \<Rightarrow> Some (PBool (lower s \<in> set true_values))
                            | x \<Rightarrow> x)
                      else d key))"

definition transform_question_mark_to_none :: "entity \<Rightarrow> string set \<Rightarrow> entity" where
  "transform_question_mark_to_none d fields =
     (\<lambda>key. if key \<in> fields
            then (case d key of
                    None \<Rightarrow> None
                  | Some val \<Rightarrow> Some (if val = PStr ''?'' then PNone else val))
            else d key)"

section \<open>Record decoders\<close>

text \<open>\<^verbatim>\<open>row.pop(0)\<close>: the first column and the rest, or \<^verbatim>\<open>IndexError\<close> on an empty row.\<close>

definition pop0 :: "row \<Rightarrow> exn + (string \<times> row)" where
  "pop0 r = (case r of [] \<Rightarrow> Inl IndexError | x # xs \<Rightarrow> Inr (x, xs))"

text \<open>
  A run of statements \<^verbatim>\<open>d[k] = row.pop(0)\<close>, one for each name of \<open>ks\<close> in its order.
\<close>

fun pop_fields :: "string list \<Rightarrow> row \<Rightarrow> entity \<Rightarrow> exn + (row \<times> entity)" where
  "pop_fields [] r d = Inr (r, d)"
| "pop_fields (k # ks) r d =
     bind_exn (pop0 r) (\<lambda>(x, r'). pop_fields ks r' (d(k \<mapsto> PStr x)))"

text \<open>\<^verbatim>\<open>s[0]\<close> on a string.\<close>

definition first_char :: "string \<Rightarrow> exn + char" where
  "first_char s = (case s of [] \<Rightarrow> Inl IndexError | c # _ \<Rightarrow> Inr c)"

definition occurrence_fields :: "string list" where
  "occurrence_fields =
    [''occurrence_id'', ''guid'', ''record_guid'', ''modified_on'', ''imaged'',
     ''information_withheld'', ''basis_of_record'', ''herbarium'', ''collection'',
     ''dataset'', ''accession'', ''catalog'', ''barcode'', ''other_numbers'', ''family'',
     ''taxon_name'', ''accepted'', ''scientific_name'', ''notho_genus'', ''genus'',
     ''notho_species'', ''specific_epithet'', ''specific_authors'', ''infraspecific_rank'',
     ''notho_infraspecies'', ''infraspecific_epithet'', ''infraspecific_authors'',
     ''hybrid_symbol'', ''notho_genus_2'', ''genus_2'', ''notho_species_2'',
     ''specific_epithet_2'', ''specific_authors_2'', ''infraspecific_rank_2'',
     ''notho_infraspecies_2'', ''infraspecific_epithet_2'', ''infraspecific_authors_2'',
     ''cultivar'', ''name_qualifier'', ''qualifier_position'', ''is_type'',
     ''type_designation'', ''site_number'', ''collector'', ''collector_number'',
     ''other_collectors'', ''day_collected'', ''month_collected'', ''year_collected'',
     ''verbatim_collection_date'', ''day_of_year'', ''country'', ''state_province'',
     ''county'', ''locality'', ''site_description'', ''verbatim_elevation'',
     ''minimum_elevation_in_meters'', ''maximum_elevation_in_meters'', ''verbatim_depth'',
     ''minimum_depth_in_meters'', ''maximum_depth_in_meters'', ''verbatim_coordinates'',
     ''decimal_latitude'', ''decimal_longitude'', ''valid_lat_lng'', ''geodetic_datum'',
     ''coordinate_uncertainty_in_meters'', ''georeferenced_by'', ''georeference_sources'',
     ''georeference_remarks'', ''specimen_notes'', ''phenology'', ''cultivated'',
     ''origin'']"

definition OccurencesHandler_dictify :: "row \<Rightarrow> exn + entity" where
  "OccurencesHandler_dictify r =
     (if length r \<noteq> 75 then Inl ValueError
      else
        bind_exn (pop_fields occurrence_fields r Map.empty) (\<lambda>(r1, d).
        bind_exn (transform_invalid_booleans d
                    {''imaged'', ''accepted'', ''is_type'', ''valid_lat_lng'', ''cultivated''}
                    [''y'', ''t'']) (\<lambda>d1.
        Inr (transform_empty_to_none d1 (dom d1)))))"

text \<open>The 25 columns of an annotation from \<^verbatim>\<open>scientific_name\<close> to \<^verbatim>\<open>annotated_by\<close>.\<close>

definition annotation_name_fields :: "string list" where
  "annotation_name_fields =
    [''scientific_name'', ''notho_genus'', ''genus'', ''notho_species'',
     ''specific_epithet'', ''specific_authors'', ''infraspecific_rank'',
     ''notho_infraspecies'', ''infraspecific_epithet'', ''infraspecific_authors'',
     ''hybrid_symbol'', ''notho_genus_2'', ''genus_2'', ''notho_species_2'',
     ''specific_epithet_2'', ''specific_authors_2'', ''infraspecific_rank_2'',
     ''notho_infraspecies_2'', ''infraspecific_epithet_2'', ''infraspecific_authors_2'',
     ''cultivar'', ''name_qualifier'', ''qualifier_position'', ''nomenclatural_code'',
     ''annotated_by'']"

text \<open>
  \<^verbatim>\<open>AnnotationsHandler.dictify\<close> is modelled in two parts. The first part,
  \<open>annotation_columns\<close>, is the body from \<^verbatim>\<open>d["occurrence_id"] = row.pop(0)\<close> to
  \<^verbatim>\<open>d["annotation_remarks"] = row.pop(0)\<close>: it reads the columns, with the tests on the
  sequence number, the day and the month. \<open>AnnotationsHandler_dictify\<close> is the whole
  function: the test of the length, the columns, the three calls of the helpers and the
  last test on the sequence number.
\<close>

definition annotation_columns :: "row \<Rightarrow> exn + entity" where
  "annotation_columns r =
     bind_exn (pop_fields [''occurrence_id'', ''current_annotation''] r Map.empty)
       (\<lambda>(r1, d1).
     bind_exn (pop0 r1) (\<lambda>(seq_num, r2).
     bind_exn (first_char seq_num) (\<lambda>c.
     bind_exn (if isalpha c
               then Inr (r2, d1(''sequence_number'' \<mapsto> PNone, ''family'' \<mapsto> PStr seq_num))
               else pop_fields [''family''] r2
                      (d1(''sequence_number'' \<mapsto> PStr seq_num))) (\<lambda>(r3, d3).
     bind_exn (pop_fields annotation_name_fields r3 d3) (\<lambda>(r4, d4).
     bind_exn (pop0 r4) (\<lambda>(day_annotated, r5).
     let d5 = (if day_annotated = ''ICBN''
               then d4(''day_annotated'' \<mapsto> PNone)
               else d4(''day_annotated'' \<mapsto> PStr day_annotated)) in
     bind_exn (pop0 r5) (\<lambda>(month_annotated, r6).
     let d6 = (if month_annotated = ''ICBN''
               then d5(''month_annotated'' \<mapsto> PNone)
               else if month_annotated \<noteq> [] \<and> isalpha (hd month_annotated)
               then d5(''annotated_by'' \<mapsto> PStr month_annotated,
                       ''month_annotated'' \<mapsto> PNone)
               else d5(''month_annotated'' \<mapsto> PStr month_annotated)) in
     bind_exn (if month_annotated = ''ICBN''
               then bind_exn (pop0 r6) (\<lambda>(x, r7).
                      Inr (r7, d6(''annotated_by'' \<mapsto> PStr x, ''year_annotated'' \<mapsto> PNone)))
               else pop_fields [''year_annotated''] r6 d6) (\<lambda>(r7, d7).
     bind_exn (pop_fields [''annotation_references'', ''annotation_remarks''] r7 d7)
       (\<lambda>(r8, d8). Inr d8)))))))))"

text \<open>
  The last statement before \<^verbatim>\<open>return d\<close> prints the mapping when its sequence number
  starts with a letter; the printing is left out, the reads it makes are kept.
\<close>

definition sequence_number_check :: "entity \<Rightarrow> exn + entity" where
  "sequence_number_check d =
     bind_exn (getitem d ''sequence_number'') (\<lambda>v.
       case v of
         PNone \<Rightarrow> Inr d
       | PStr s \<Rightarrow> bind_exn (first_char s) (\<lambda>c. Inr d)
       | _ \<Rightarrow> Inl TypeError)"

definition AnnotationsHandler_dictify :: "row \<Rightarrow> exn + entity" where
  "AnnotationsHandler_dictify r =
     (if length r \<noteq> 34 then Inl ValueError
      else
        bind_exn (annotation_columns r) (\<lambda>d8.
        bind_exn (transform_invalid_booleans d8 {''current_annotation''} [''y'', ''t''])
          (\<lambda>d9.
        let d10 = transform_empty_to_none d9 (dom d9);
            d11 = transform_question_mark_to_none d10 {''sequence_number''}
        in sequence_number_check d11)))"

definition type_fields :: "string list" where
  "type_fields =
    [''sequence_number'', ''family'', ''scientific_name'', ''notho_genus'', ''genus'',
     ''notho_species'', ''specific_epithet'', ''specific_authors'', ''infraspecific_rank'',
     ''notho_infraspecies'', ''infraspecific_epithet'', ''infraspecific_authors'',
     ''cultivar'', ''type_designation'', ''holotype_location'', ''year_published'',
     ''publication'', ''notes'']"

definition TypesHandler_dictify :: "row \<Rightarrow> exn + entity" where
  "TypesHandler_dictify r =
     bind_exn (pop0 r) (\<lambda>(x, r1).
     bind_exn (py_int (PStr x)) (\<lambda>n.
     bind_exn (pop_fields type_fields r1 [''occurrence_id'' \<mapsto> PInt n]) (\<lambda>(r2, d).
     Inr (transform_empty_to_none d (dom d)))))"

definition media_fields :: "string list" where
  "media_fields =
    [''occurrence_id'', ''modified_on'', ''media_guid'', ''file_name'', ''file_format'',
     ''viewer_format'', ''thumbnail_url'', ''file_url'', ''viewer_url'', ''date_created'',
     ''created_by'', ''publisher'', ''license'']"

definition MediaHandler_dictify :: "row \<Rightarrow> exn + entity" where
  "MediaHandler_dictify r =
     bind_exn (pop_fields media_fields r Map.empty) (\<lambda>(r1, d).
     Inr (transform_empty_to_none d (dom d)))"

section \<open>BaseHandler\<close>

text \<open>
  The connection to the database is the Relational Sink, outside the program. What the
  importer does to it is kept as a trace of events, \<open>Executed batch\<close> for a call of
  \<^verbatim>\<open>self.execute(cursor, entities)\<close>, the bulk insert of one batch. The sink answers a bulk
  insert by succeeding (\<open>None\<close>) or by raising (\<open>Some error\<close>); its answer may depend on
  everything that happened before and on the batch. Opening a cursor, rolling back and
  committing are taken not to raise.
\<close>

datatype event =
    CursorOpened | Executed "entity list" | ErrorLogged exn | RolledBack | CursorClosed
  | Committed

type_synonym sink = "event list \<Rightarrow> entity list \<Rightarrow> exn option"

text \<open>
  \<^verbatim>\<open>batch_insert\<close>: \<^verbatim>\<open>except Exception\<close> catches every exception of \<open>exn\<close>, logs it and rolls
  back; \<^verbatim>\<open>finally\<close> closes the cursor.
\<close>

definition batch_insert :: "sink \<Rightarrow> entity list \<Rightarrow> event list \<Rightarrow> event list" where
  "batch_insert execute entities tr =
     (let tr1 = tr @ [CursorOpened] in
      case execute tr1 entities of
        None \<Rightarrow> tr1 @ [Executed entities, CursorClosed]
      | Some error \<Rightarrow> tr1 @ [Executed entities, ErrorLogged error, RolledBack, CursorClosed])"

text \<open>
  The loop \<^verbatim>\<open>for row in rows\<close> of \<^verbatim>\<open>handle\<close>, on the rows after the header, with the batch
  \<^verbatim>\<open>entities\<close> collected so far and the trace. It returns the last, unflushed batch, or the
  exception that left the loop, with the trace at that point.
\<close>

fun handle_rows ::
  "(row \<Rightarrow> exn + entity) \<Rightarrow> sink \<Rightarrow> pyval set \<Rightarrow> int \<Rightarrow> bool \<Rightarrow> bool \<Rightarrow>
   row list \<Rightarrow> entity list \<Rightarrow> event list \<Rightarrow> (exn + entity list) \<times> event list" where
  "handle_rows dictify execute valid_keys batch_size skip_fkey_validation no_commit
     [] entities tr = (Inr entities, tr)"
| "handle_rows dictify execute valid_keys batch_size skip_fkey_validation no_commit
     (r # rows) entities tr =
     (case dictify r of
        Inl e \<Rightarrow> (Inl e, tr)
      | Inr d \<Rightarrow>
          (case (if \<not> skip_fkey_validation
                 then bind_exn (getitem d ''occurrence_id'') (\<lambda>k.
                        Inr (if py_in k valid_keys then entities @ [d] else entities))
                 else Inr (entities @ [d])) of
             Inl e \<Rightarrow> (Inl e, tr)
           | Inr entities1 \<Rightarrow>
               (let (entities2, tr2) =
                      (if int (length entities1) \<ge> batch_size
                       then ([], batch_insert execute entities1 tr)
                       else (entities1, tr));
                    tr3 = (if \<not> no_commit then tr2 @ [Committed] else tr2)
                in handle_rows dictify execute valid_keys batch_size skip_fkey_validation
                     no_commit rows entities2 tr3)))"

text \<open>
  \<^verbatim>\<open>handle\<close> on a file given as the rows its reader yields, the header first: \<^verbatim>\<open>next(rows)\<close>
  raises \<^verbatim>\<open>StopIteration\<close> on an empty file. The result is the exception that escaped, if
  any, and the trace.
\<close>

definition handle ::
  "(row \<Rightarrow> exn + entity) \<Rightarrow> sink \<Rightarrow> pyval set \<Rightarrow> int \<Rightarrow> bool \<Rightarrow> bool \<Rightarrow>
   row list \<Rightarrow> event list \<Rightarrow> exn option \<times> event list" where
  "handle dictify execute valid_keys batch_size skip_fkey_validation no_commit file tr =
     (case file of
        [] \<Rightarrow> (Some StopIteration, tr)
      | header # rows \<Rightarrow>
          (case handle_rows dictify execute valid_keys batch_size skip_fkey_validation
                  no_commit rows [] tr of
             (Inl e, tr') \<Rightarrow> (Some e, tr')
           | (Inr entities, tr') \<Rightarrow>
               (None, if length entities > 0 then batch_insert execute entities tr'
                      else tr')))"

text \<open>The batches handed to the sink, in the order of the bulk inserts.\<close>

fun bulk_inserts :: "event list \<Rightarrow> entity list list" where
  "bulk_inserts [] = []"
| "bulk_inserts (Executed b # tr) = b # bulk_inserts tr"
| "bulk_inserts (e # tr) = bulk_inserts tr"

text \<open>The errors logged by \<^verbatim>\<open>batch_insert\<close>.\<close>

fun errors_logged :: "event list \<Rightarrow> exn list" where
  "errors_logged [] = []"
| "errors_logged (ErrorLogged e # tr) = e # errors_logged tr"
| "errors_logged (e # tr) = errors_logged tr"

text \<open>
  The batches as the specification describes them, for \<open>n\<close> forwarded rows and batch size
  \<open>b\<close>: \<open>\<lceil>n / b\<rceil>\<close> batches, batch \<open>i\<close> holding the rows from \<open>i * b\<close> on, at most \<open>b\<close> of them.
\<close>

definition spec_batches :: "nat \<Rightarrow> 'a list \<Rightarrow> 'a list list" where
  "spec_batches b xs =
     map (\<lambda>i. take b (drop (i * b) xs)) [0 ..< (length xs + b - 1) div b]"

section \<open>Validator\<close>

text \<open>
  \<^verbatim>\<open>self.errors\<close> has one dictionary for each of the four tables, from the key of an entity
  to its list of errors; \<^verbatim>\<open>self.sets\<close> maps a name to a set of values. A dictionary keyed
  by Python values is a map on \<open>py_key\<close> of the key.
\<close>

datatype table = corpus_occurrences | corpus_annotations | corpus_media | corpus_types

fun table_name :: "table \<Rightarrow> string" where
  "table_name corpus_occurrences = ''corpus_occurrences''"
| "table_name corpus_annotations = ''corpus_annotations''"
| "table_name corpus_media = ''corpus_media''"
| "table_name corpus_types = ''corpus_types''"

type_synonym error = "string \<times> pyval"

record validator =
  errors :: "table \<Rightarrow> (pyval \<rightharpoonup> error list)"
  sets :: "string \<rightharpoonup> pyval set"

definition Validator_init :: validator where
  "Validator_init = \<lparr> errors = (\<lambda>t. Map.empty), sets = [''valid_occurrence_ids'' \<mapsto> {}] \<rparr>"

definition add_error_for_entity :: "table \<Rightarrow> pyval \<Rightarrow> error \<Rightarrow> validator \<Rightarrow> validator" where
  "add_error_for_entity table entity_id val v =
     (let errs = (case errors v table (py_key entity_id) of None \<Rightarrow> [] | Some es \<Rightarrow> es)
      in v\<lparr>errors := (errors v)(table := (errors v table)(py_key entity_id \<mapsto> errs @ [val]))\<rparr>)"

text \<open>
  Every method returns what the Python method returns, or the exception it raises,
  together with the validator as the method leaves it.
\<close>

definition validate_fkey ::
  "table \<Rightarrow> entity \<Rightarrow> validator \<Rightarrow> (exn + error option) \<times> validator" where
  "validate_fkey table entity v =
     (case sets v ''valid_occurrence_ids'' of
        None \<Rightarrow> (Inl KeyError, v)
      | Some valid_set \<Rightarrow>
          (case entity ''occurrence_id'' of
             None \<Rightarrow> (Inl KeyError, v)
           | Some k \<Rightarrow>
               if \<not> py_in k valid_set
               then (let error = (''Invalid foreign key'', k)
                     in (Inr (Some error), add_error_for_entity table k error v))
               else (Inr None, v)))"

definition validate_unique ::
  "table \<Rightarrow> string \<Rightarrow> entity \<Rightarrow> validator \<Rightarrow> (exn + error option) \<times> validator" where
  "validate_unique table key entity v =
     (let set_key = table_name table @ '':'' @ key;
          v1 = (if set_key \<notin> dom (sets v) then v\<lparr>sets := (sets v)(set_key \<mapsto> {})\<rparr> else v);
          seen = the (sets v1 set_key)
      in case entity key of
           None \<Rightarrow> (Inl KeyError, v1)
         | Some x \<Rightarrow>
             if x \<noteq> PNone \<and> py_in x seen
             then (case entity ''occurrence_id'' of
                     None \<Rightarrow> (Inl KeyError, v1)
                   | Some k \<Rightarrow>
                       (let error = (''Duplicate '' @ key @ '' found'', x)
                        in (Inr (Some error), add_error_for_entity table k error v1)))
             else (Inr None, v1\<lparr>sets := (sets v1)(set_key \<mapsto> py_add x seen)\<rparr>))"

text \<open>The decimal digits of a number, for the messages.\<close>

fun str_nat :: "nat \<Rightarrow> string" where
  "str_nat n =
     (if n < 10 then [''0123456789'' ! n]
      else str_nat (n div 10) @ [''0123456789'' ! (n mod 10)])"

definition validate_length ::
  "table \<Rightarrow> string \<Rightarrow> entity \<Rightarrow> nat \<Rightarrow> validator \<Rightarrow> (exn + error option) \<times> validator" where
  "validate_length table key entity len v =
     (case entity key of
        None \<Rightarrow> (Inl KeyError, v)
      | Some x \<Rightarrow>
          if x = PNone then (Inr None, v)
          else (case py_len x of
                  Inl e \<Rightarrow> (Inl e, v)
                | Inr n \<Rightarrow>
                    if n > len
                    then (case entity ''occurrence_id'' of
                            None \<Rightarrow> (Inl KeyError, v)
                          | Some k \<Rightarrow>
                              (let error = (''Value exceeds maximum length ('' @ str_nat len
                                              @ '' chars) for key '' @ key, x)
                               in (Inr (Some error), add_error_for_entity table k error v)))
                    else (Inr None, v)))"

text \<open>
  \<^verbatim>\<open>validate_integer\<close> and \<^verbatim>\<open>validate_numeric\<close> catch \<^verbatim>\<open>ValueError\<close> only; any other
  exception of the conversion leaves the method. \<^verbatim>\<open>validate_numeric\<close> has no
  \<^verbatim>\<open>return\<close> in its handler and so returns \<^verbatim>\<open>None\<close> there.
\<close>

definition validate_integer ::
  "table \<Rightarrow> string \<Rightarrow> entity \<Rightarrow> validator \<Rightarrow> (exn + error option) \<times> validator" where
  "validate_integer table key entity v =
     (case entity key of
        None \<Rightarrow> (Inl KeyError, v)
      | Some x \<Rightarrow>
          if x = PNone then (Inr None, v)
          else (case py_int x of
                  Inr n \<Rightarrow> (Inr None, v)
                | Inl ValueError \<Rightarrow>
                    (case entity ''occurrence_id'' of
                       None \<Rightarrow> (Inl KeyError, v)
                     | Some k \<Rightarrow>
                         (let error = (''Expected integer value for key '' @ key, x)
                          in (Inr (Some error), add_error_for_entity table k error v)))
                | Inl e \<Rightarrow> (Inl e, v)))"

definition validate_numeric ::
  "table \<Rightarrow> string \<Rightarrow> entity \<Rightarrow> validator \<Rightarrow> (exn + error option) \<times> validator" where
  "validate_numeric table key entity v =
     (case entity key of
        None \<Rightarrow> (Inl KeyError, v)
      | Some x \<Rightarrow>
          if x = PNone then (Inr None, v)
          else (case py_Decimal x of
                  Inr u \<Rightarrow> (Inr None, v)
                | Inl ValueError \<Rightarrow>
                    (case entity ''occurrence_id'' of
                       None \<Rightarrow> (Inl KeyError, v)
                     | Some k \<Rightarrow>
                         (let error = (''Expected decimal value for key '' @ key, x)
                          in (Inr None, add_error_for_entity table k error v)))
                | Inl e \<Rightarrow> (Inl e, v)))"

text \<open>A loop \<^verbatim>\<open>for x in xs: f(x)\<close> over a method of the validator.\<close>

fun for_each ::
  "('a \<Rightarrow> validator \<Rightarrow> (exn + 'b) \<times> validator) \<Rightarrow> 'a list \<Rightarrow> validator \<Rightarrow>
   (exn + unit) \<times> validator" where
  "for_each f [] v = (Inr (), v)"
| "for_each f (x # xs) v =
     (case f x v of
        (Inl e, v') \<Rightarrow> (Inl e, v')
      | (Inr y, v') \<Rightarrow> for_each f xs v')"

definition occurrence_varchar_255_fields :: "string list" where
  "occurrence_varchar_255_fields =
    [''guid'', ''basis_of_record'', ''herbarium'', ''collection'', ''dataset'',
     ''accession'', ''catalog'', ''barcode'', ''other_numbers'', ''family'', ''taxon_name'',
     ''scientific_name'', ''notho_genus'', ''genus'', ''notho_species'',
     ''specific_epithet'', ''specific_authors'', ''infraspecific_rank'',
     ''notho_infraspecies'', ''infraspecific_epithet'', ''infraspecific_authors'',
     ''hybrid_symbol'', ''notho_genus_2'', ''genus_2'', ''notho_species_2'',
     ''specific_epithet_2'', ''specific_authors_2'', ''infraspecific_rank_2'',
     ''notho_infraspecies_2'', ''infraspecific_epithet_2'', ''infraspecific_authors_2'',
     ''cultivar'', ''name_qualifier'', ''qualifier_position'', ''type_designation'',
     ''site_number'', ''collector'', ''collector_number'', ''other_collectors'',
     ''day_collected'', ''month_collected'', ''year_collected'',
     ''verbatim_collection_date'', ''day_of_year'', ''country'', ''state_province'',
     ''county'', ''verbatim_elevation'', ''verbatim_depth'', ''verbatim_coordinates'',
     ''geodetic_datum'', ''georeferenced_by'', ''georeference_sources'', ''phenology'',
     ''origin'']"

definition occurrence_numeric_fields :: "string list" where
  "occurrence_numeric_fields =
    [''minimum_elevation_in_meters'', ''maximum_elevation_in_meters'',
     ''minimum_depth_in_meters'', ''maximum_depth_in_meters'', ''decimal_latitude'',
     ''decimal_longitude'', ''coordinate_uncertainty_in_meters'']"

definition validate_occurrence :: "entity \<Rightarrow> validator \<Rightarrow> (exn + unit) \<times> validator" where
  "validate_occurrence entity v =
     (case validate_unique corpus_occurrences ''guid'' entity v of
        (Inl ex, v1) \<Rightarrow> (Inl ex, v1)
      | (Inr e, v1) \<Rightarrow>
          (case (if e = None
                 then (case sets v1 ''valid_occurrence_ids'' of
                         None \<Rightarrow> (Inl KeyError, v1)
                       | Some valid_set \<Rightarrow>
                           (case entity ''occurrence_id'' of
                              None \<Rightarrow> (Inl KeyError, v1)
                            | Some k \<Rightarrow>
                                (Inr (), v1\<lparr>sets := (sets v1)(''valid_occurrence_ids'' \<mapsto>
                                                        py_add k valid_set)\<rparr>)))
                 else (Inr (), v1)) of
             (Inl ex, v2) \<Rightarrow> (Inl ex, v2)
           | (Inr u, v2) \<Rightarrow>
               (case for_each (\<lambda>field. validate_length corpus_occurrences field entity 255)
                       occurrence_varchar_255_fields v2 of
                  (Inl ex, v3) \<Rightarrow> (Inl ex, v3)
                | (Inr u, v3) \<Rightarrow>
                    for_each (\<lambda>field. validate_numeric corpus_occurrences field entity)
                      occurrence_numeric_fields v3)))"

text \<open>
  \<^verbatim>\<open>_validate_occurrences\<close> on a file given as the rows its reader yields, the header
  first.
\<close>

definition validate_occurrences :: "row list \<Rightarrow> validator \<Rightarrow> (exn + unit) \<times> validator" where
  "validate_occurrences file v =
     (case file of
        [] \<Rightarrow> (Inl StopIteration, v)
      | header # rows \<Rightarrow>
          for_each (\<lambda>r v'. case OccurencesHandler_dictify r of
                             Inl e \<Rightarrow> (Inl e, v')
                           | Inr d \<Rightarrow> validate_occurrence d v') rows v)"

section \<open>Properties of the decoders\<close>

subsection \<open>Reading columns\<close>

lemma pop_fields_short: "length r < length ks \<Longrightarrow> pop_fields ks r d = Inl IndexError"
proof (induction ks arbitrary: r d)
  case Nil
  then show ?case by simp
next
  case (Cons k ks)
  then show ?case by (cases r) (simp_all add: bind_exn_def pop0_def)
qed

lemma pop_fields_long:
  "length ks \<le> length r \<Longrightarrow> \<exists>d'. pop_fields ks r d = Inr (drop (length ks) r, d')"
proof (induction ks arbitrary: r d)
  case Nil
  then show ?case by simp
next
  case (Cons k ks)
  then show ?case by (cases r) (simp_all add: bind_exn_def pop0_def)
qed

lemma pop_fields_other:
  "pop_fields ks r d = Inr (r', d') \<Longrightarrow> k \<notin> set ks \<Longrightarrow> d' k = d k"
proof (induction ks arbitrary: r d)
  case Nil
  then show ?case by simp
next
  case (Cons a ks)
  then show ?case
    by (cases r) (auto simp: bind_exn_def pop0_def)
qed

lemma occurrence_wrong_length: "length r \<noteq> 75 \<Longrightarrow> OccurencesHandler_dictify r = Inl ValueError"
  by (simp add: OccurencesHandler_dictify_def)

lemma annotation_wrong_length: "length r \<noteq> 34 \<Longrightarrow> AnnotationsHandler_dictify r = Inl ValueError"
  by (simp add: AnnotationsHandler_dictify_def)

lemma length_media_fields: "length media_fields = 13"
  by (simp add: media_fields_def)

lemma length_type_fields: "length type_fields = 18"
  by (simp add: type_fields_def)

lemma media_short_row: "length r < 13 \<Longrightarrow> MediaHandler_dictify r = Inl IndexError"
  using pop_fields_short[of r media_fields Map.empty]
  by (simp add: MediaHandler_dictify_def length_media_fields bind_exn_def)

lemma media_long_row: "13 \<le> length r \<Longrightarrow> \<exists>d. MediaHandler_dictify r = Inr d"
  using pop_fields_long[of media_fields r Map.empty]
  by (auto simp: MediaHandler_dictify_def length_media_fields bind_exn_def)

lemma types_short_row:
  assumes "length r < 19"
  shows "\<exists>e. TypesHandler_dictify r = Inl e"
proof (cases r)
  case Nil
  then show ?thesis by (simp add: TypesHandler_dictify_def bind_exn_def pop0_def)
next
  case (Cons x r1)
  show ?thesis
  proof (cases "py_int (PStr x)")
    case (Inl e)
    then show ?thesis using Cons by (simp add: TypesHandler_dictify_def bind_exn_def pop0_def)
  next
    case (Inr n)
    have "pop_fields type_fields r1 [''occurrence_id'' \<mapsto> PInt n] = Inl IndexError"
      using assms Cons by (intro pop_fields_short) (simp add: length_type_fields)
    then show ?thesis
      using Cons Inr by (simp add: TypesHandler_dictify_def bind_exn_def pop0_def)
  qed
qed

subsection \<open>The annotation decoder on a row of 34 columns\<close>

lemma row34: "length (r::string list) = 34 \<Longrightarrow> r = map ((!) r) [0..<34]"
  by (metis map_nth)

lemma upt34: "[0..<34] = [0,1,2,3,4,5,6,7,8,9,10,11,12,13,14,15,16,17,18,19,20,21,22,23,24,25,26,27,28,29,30,31,32,33]"
  by (simp add: upt_conv_Cons)

lemma annotation_post:
  assumes "d8 ''current_annotation'' = Some (PStr s)" "d8 ''sequence_number'' = Some v"
    "v = PNone \<or> (\<exists>c cs. v = PStr (c # cs))"
  shows "\<exists>d. bind_exn (transform_invalid_booleans d8 {''current_annotation''} [''y'', ''t''])
          (\<lambda>d9.
        let d10 = transform_empty_to_none d9 (dom d9);
            d11 = transform_question_mark_to_none d10 {''sequence_number''}
        in sequence_number_check d11) = Inr d \<and>
     (\<forall>k. k \<noteq> ''current_annotation'' \<longrightarrow> d k = map_option
         (\<lambda>v. if v = PStr [] \<or> (k = ''sequence_number'' \<and> v = PStr ''?'') then PNone else v) (d8 k))"
  using assms
  by (auto simp: transform_invalid_booleans_def transform_empty_to_none_def
      transform_question_mark_to_none_def sequence_number_check_def getitem_def bind_exn_def
      first_char_def Let_def dom_def split: option.splits)

lemmas col_defs = annotation_columns_def bind_exn_def pop0_def first_char_def annotation_name_fields_def Let_def

lemma cols_empty:
  assumes len: "length r = 34" and e: "r ! 2 = []"
  shows "annotation_columns r = Inl IndexError"
proof -
  have "annotation_columns (map ((!) r) [0..<34]) = Inl IndexError"
    using e by (simp add: col_defs upt34)
  then show ?thesis unfolding row34[OF len, symmetric] .
qed

lemma cols_alpha:
  assumes len: "length r = 34" and c: "r ! 2 = c # cs" "isalpha c"
  shows "\<exists>d. annotation_columns r = Inr d \<and>
      d ''current_annotation'' = Some (PStr (r ! 1)) \<and>
      d ''sequence_number'' = Some PNone \<and> d ''family'' = Some (PStr (r!2))
    \<and> d ''day_annotated'' = Some (if r ! 28 = ''ICBN'' then PNone else PStr (r ! 28))
    \<and> d ''month_annotated'' = Some (if r ! 29 = ''ICBN'' \<or> r ! 29 \<noteq> [] \<and> isalpha (hd (r ! 29)) then PNone else PStr (r ! 29))
    \<and> d ''year_annotated'' = Some (if r ! 29 = ''ICBN'' then PNone else PStr (r ! 30))
    \<and> d ''annotated_by'' = Some (PStr (if r ! 29 = ''ICBN'' then r ! 30
         else if r ! 29 \<noteq> [] \<and> isalpha (hd (r ! 29)) then r ! 29 else r ! 27))"
proof -
  have "case annotation_columns (map ((!) r) [0..<34]) of Inl e \<Rightarrow> False | Inr d \<Rightarrow>
      d ''current_annotation'' = Some (PStr (r ! 1)) \<and>
      d ''sequence_number'' = Some PNone \<and> d ''family'' = Some (PStr (r!2))
    \<and> d ''day_annotated'' = Some (if r ! 28 = ''ICBN'' then PNone else PStr (r ! 28))
    \<and> d ''month_annotated'' = Some (if r ! 29 = ''ICBN'' \<or> r ! 29 \<noteq> [] \<and> isalpha (hd (r ! 29)) then PNone else PStr (r ! 29))
    \<and> d ''year_annotated'' = Some (if r ! 29 = ''ICBN'' then PNone else PStr (r ! 30))
    \<and> d ''annotated_by'' = Some (PStr (if r ! 29 = ''ICBN'' then r ! 30
         else if r ! 29 \<noteq> [] \<and> isalpha (hd (r ! 29)) then r ! 29 else r ! 27))"
    using c by (simp add: col_defs upt34)
  then show ?thesis unfolding row34[OF len, symmetric]
    by (cases "annotation_columns r") simp_all
qed

lemma cols_other:
  assumes len: "length r = 34" and c: "r ! 2 = c # cs" "\<not> isalpha c"
  shows "\<exists>d. annotation_columns r = Inr d \<and>
      d ''current_annotation'' = Some (PStr (r ! 1)) \<and>
      d ''sequence_number'' = Some (PStr (r ! 2)) \<and> d ''family'' = Some (PStr (r!3))
    \<and> d ''day_annotated'' = Some (if r ! 29 = ''ICBN'' then PNone else PStr (r ! 29))
    \<and> d ''month_annotated'' = Some (if r ! 30 = ''ICBN'' \<or> r ! 30 \<noteq> [] \<and> isalpha (hd (r ! 30)) then PNone else PStr (r ! 30))
    \<and> d ''year_annotated'' = Some (if r ! 30 = ''ICBN'' then PNone else PStr (r ! 31))
    \<and> d ''annotated_by'' = Some (PStr (if r ! 30 = ''ICBN'' then r ! 31
         else if r ! 30 \<noteq> [] \<and> isalpha (hd (r ! 30)) then r ! 30 else r ! 28))"
proof -
  have "case annotation_columns (map ((!) r) [0..<34]) of Inl e \<Rightarrow> False | Inr d \<Rightarrow>
      d ''current_annotation'' = Some (PStr (r ! 1)) \<and>
      d ''sequence_number'' = Some (PStr (r ! 2)) \<and> d ''family'' = Some (PStr (r!3))
    \<and> d ''day_annotated'' = Some (if r ! 29 = ''ICBN'' then PNone else PStr (r ! 29))
    \<and> d ''month_annotated'' = Some (if r ! 30 = ''ICBN'' \<or> r ! 30 \<noteq> [] \<and> isalpha (hd (r ! 30)) then PNone else PStr (r ! 30))
    \<and> d ''year_annotated'' = Some (if r ! 30 = ''ICBN'' then PNone else PStr (r ! 31))
    \<and> d ''annotated_by'' = Some (PStr (if r ! 30 = ''ICBN'' then r ! 31
         else if r ! 30 \<noteq> [] \<and> isalpha (hd (r ! 30)) then r ! 30 else r ! 28))"
    using c by (simp add: col_defs upt34)
  then show ?thesis unfolding row34[OF len, symmetric]
    by (cases "annotation_columns r") simp_all
qed

lemma annotation_decode_alpha:
  assumes len: "length r = 34" and ne: "r ! 2 \<noteq> []" and al: "isalpha (hd (r ! 2))"
  shows "\<exists>d. AnnotationsHandler_dictify r = Inr d
    \<and> d ''sequence_number'' = Some PNone
    \<and> d ''family'' = Some (PStr (r ! 2))
    \<and> d ''day_annotated'' = Some (if r ! 28 = ''ICBN'' \<or> r ! 28 = [] then PNone else PStr (r ! 28))
    \<and> d ''month_annotated'' =
        Some (if r ! 29 = ''ICBN'' \<or> r ! 29 = [] \<or> isalpha (hd (r ! 29)) then PNone
              else PStr (r ! 29))
    \<and> d ''year_annotated'' = Some (if r ! 29 = ''ICBN'' \<or> r ! 30 = [] then PNone else PStr (r ! 30))
    \<and> d ''annotated_by'' =
        Some (if r ! 29 = ''ICBN'' then (if r ! 30 = [] then PNone else PStr (r ! 30))
              else if r ! 29 \<noteq> [] \<and> isalpha (hd (r ! 29)) then PStr (r ! 29)
              else if r ! 27 = [] then PNone else PStr (r ! 27))"
proof -
  from ne al obtain c cs where c: "r ! 2 = c # cs" "isalpha c"
    by (cases "r ! 2") auto
  from cols_alpha[OF len c] obtain d8 where d8: "annotation_columns r = Inr d8"
    "d8 ''current_annotation'' = Some (PStr (r ! 1))"
    "d8 ''sequence_number'' = Some PNone" "d8 ''family'' = Some (PStr (r ! 2))"
    "d8 ''day_annotated'' = Some (if r ! 28 = ''ICBN'' then PNone else PStr (r ! 28))"
    "d8 ''month_annotated'' = Some (if r ! 29 = ''ICBN'' \<or> r ! 29 \<noteq> [] \<and> isalpha (hd (r ! 29)) then PNone else PStr (r ! 29))"
    "d8 ''year_annotated'' = Some (if r ! 29 = ''ICBN'' then PNone else PStr (r ! 30))"
    "d8 ''annotated_by'' = Some (PStr (if r ! 29 = ''ICBN'' then r ! 30
         else if r ! 29 \<noteq> [] \<and> isalpha (hd (r ! 29)) then r ! 29 else r ! 27))"
    by blast
  from annotation_post[OF d8(2,3)] obtain d where d:
    "bind_exn (transform_invalid_booleans d8 {''current_annotation''} [''y'', ''t''])
          (\<lambda>d9.
        let d10 = transform_empty_to_none d9 (dom d9);
            d11 = transform_question_mark_to_none d10 {''sequence_number''}
        in sequence_number_check d11) = Inr d"
    "\<And>k. k \<noteq> ''current_annotation'' \<Longrightarrow> d k = map_option
         (\<lambda>v. if v = PStr [] \<or> (k = ''sequence_number'' \<and> v = PStr ''?'') then PNone else v) (d8 k)"
    by auto
  have "AnnotationsHandler_dictify r = Inr d"
    using len d8(1) d(1) by (simp add: AnnotationsHandler_dictify_def bind_exn_def)
  moreover have "d ''sequence_number'' = Some PNone" using d(2)[of "''sequence_number''"] d8(3) by simp
  moreover have "d ''family'' = Some (PStr (r ! 2))" using d(2)[of "''family''"] d8(4) c by simp
  moreover have "d ''day_annotated'' = Some (if r ! 28 = ''ICBN'' \<or> r ! 28 = [] then PNone else PStr (r ! 28))"
    using d(2)[of "''day_annotated''"] d8(5) by simp
  moreover have "d ''month_annotated'' =
        Some (if r ! 29 = ''ICBN'' \<or> r ! 29 = [] \<or> isalpha (hd (r ! 29)) then PNone
              else PStr (r ! 29))"
    using d(2)[of "''month_annotated''"] d8(6) by auto
  moreover have "d ''year_annotated'' = Some (if r ! 29 = ''ICBN'' \<or> r ! 30 = [] then PNone else PStr (r ! 30))"
    using d(2)[of "''year_annotated''"] d8(7) by simp
  moreover have "d ''annotated_by'' =
        Some (if r ! 29 = ''ICBN'' then (if r ! 30 = [] then PNone else PStr (r ! 30))
              else if r ! 29 \<noteq> [] \<and> isalpha (hd (r ! 29)) then PStr (r ! 29)
              else if r ! 27 = [] then PNone else PStr (r ! 27))"
    using d(2)[of "''annotated_by''"] d8(8) by simp
  ultimately show ?thesis by blast
qed

lemma annotation_decode_other:
  assumes len: "length r = 34" and ne: "r ! 2 \<noteq> []" and al: "\<not> isalpha (hd (r ! 2))"
  shows "\<exists>d. AnnotationsHandler_dictify r = Inr d
    \<and> d ''sequence_number'' = Some (if r ! 2 = ''?'' then PNone else PStr (r ! 2))
    \<and> d ''family'' = Some (if r ! 3 = [] then PNone else PStr (r ! 3))
    \<and> d ''day_annotated'' = Some (if r ! 29 = ''ICBN'' \<or> r ! 29 = [] then PNone else PStr (r ! 29))
    \<and> d ''month_annotated'' =
        Some (if r ! 30 = ''ICBN'' \<or> r ! 30 = [] \<or> isalpha (hd (r ! 30)) then PNone
              else PStr (r ! 30))
    \<and> d ''year_annotated'' = Some (if r ! 30 = ''ICBN'' \<or> r ! 31 = [] then PNone else PStr (r ! 31))
    \<and> d ''annotated_by'' =
        Some (if r ! 30 = ''ICBN'' then (if r ! 31 = [] then PNone else PStr (r ! 31))
              else if r ! 30 \<noteq> [] \<and> isalpha (hd (r ! 30)) then PStr (r ! 30)
              else if r ! 28 = [] then PNone else PStr (r ! 28))"
proof -
  from ne al obtain c cs where c: "r ! 2 = c # cs" "\<not> isalpha c"
    by (cases "r ! 2") auto
  from cols_other[OF len c] obtain d8 where d8: "annotation_columns r = Inr d8"
    "d8 ''current_annotation'' = Some (PStr (r ! 1))"
    "d8 ''sequence_number'' = Some (PStr (r ! 2))" "d8 ''family'' = Some (PStr (r ! 3))"
    "d8 ''day_annotated'' = Some (if r ! 29 = ''ICBN'' then PNone else PStr (r ! 29))"
    "d8 ''month_annotated'' = Some (if r ! 30 = ''ICBN'' \<or> r ! 30 \<noteq> [] \<and> isalpha (hd (r ! 30)) then PNone else PStr (r ! 30))"
    "d8 ''year_annotated'' = Some (if r ! 30 = ''ICBN'' then PNone else PStr (r ! 31))"
    "d8 ''annotated_by'' = Some (PStr (if r ! 30 = ''ICBN'' then r ! 31
         else if r ! 30 \<noteq> [] \<and> isalpha (hd (r ! 30)) then r ! 30 else r ! 28))"
    by blast
  from c have "PStr (r ! 2) = PNone \<or> (\<exists>c cs. PStr (r ! 2) = PStr (c # cs))" by simp
  from annotation_post[OF d8(2,3) this] obtain d where d:
    "bind_exn (transform_invalid_booleans d8 {''current_annotation''} [''y'', ''t''])
          (\<lambda>d9.
        let d10 = transform_empty_to_none d9 (dom d9);
            d11 = transform_question_mark_to_none d10 {''sequence_number''}
        in sequence_number_check d11) = Inr d"
    "\<And>k. k \<noteq> ''current_annotation'' \<Longrightarrow> d k = map_option
         (\<lambda>v. if v = PStr [] \<or> (k = ''sequence_number'' \<and> v = PStr ''?'') then PNone else v) (d8 k)"
    by auto
  have "AnnotationsHandler_dictify r = Inr d"
    using len d8(1) d(1) by (simp add: AnnotationsHandler_dictify_def bind_exn_def)
  moreover have "d ''sequence_number'' = Some (if r ! 2 = ''?'' then PNone else PStr (r ! 2))"
    using d(2)[of "''sequence_number''"] d8(3) c by simp
  moreover have "d ''family'' = Some (if r ! 3 = [] then PNone else PStr (r ! 3))"
    using d(2)[of "''family''"] d8(4) by simp
  moreover have "d ''day_annotated'' = Some (if r ! 29 = ''ICBN'' \<or> r ! 29 = [] then PNone else PStr (r ! 29))"
    using d(2)[of "''day_annotated''"] d8(5) by simp
  moreover have "d ''month_annotated'' =
        Some (if r ! 30 = ''ICBN'' \<or> r ! 30 = [] \<or> isalpha (hd (r ! 30)) then PNone
              else PStr (r ! 30))"
    using d(2)[of "''month_annotated''"] d8(6) by auto
  moreover have "d ''year_annotated'' = Some (if r ! 30 = ''ICBN'' \<or> r ! 31 = [] then PNone else PStr (r ! 31))"
    using d(2)[of "''year_annotated''"] d8(7) by simp
  moreover have "d ''annotated_by'' =
        Some (if r ! 30 = ''ICBN'' then (if r ! 31 = [] then PNone else PStr (r ! 31))
              else if r ! 30 \<noteq> [] \<and> isalpha (hd (r ! 30)) then PStr (r ! 30)
              else if r ! 28 = [] then PNone else PStr (r ! 28))"
    using d(2)[of "''annotated_by''"] d8(8) by simp
  ultimately show ?thesis by blast
qed

section \<open>The claims about the decoders\<close>

text \<open>
  Claim C1 says that every decoder fails on a row whose number of columns is not the
  expected one. The decoders of occurrences and annotations test the length; those of types
  and media do not, and a longer row decodes: the columns after the expected ones are
  ignored. Here a media row of 14 columns decodes to the mapping of its first 13 columns,
  and a type row of 20 columns decodes too.
\<close>

theorem longer_rows_decode:
  "MediaHandler_dictify
     [''OCC1'', ''2020-01-01'', ''g1'', ''a.jpg'', ''jpg'', ''v'', ''t'', ''f'', ''w'',
      ''2019'', ''me'', ''pub'', ''CC0'', ''extra'']
   = MediaHandler_dictify
     [''OCC1'', ''2020-01-01'', ''g1'', ''a.jpg'', ''jpg'', ''v'', ''t'', ''f'', ''w'',
      ''2019'', ''me'', ''pub'', ''CC0'']
   \<and> \<not> isl (MediaHandler_dictify
     [''OCC1'', ''2020-01-01'', ''g1'', ''a.jpg'', ''jpg'', ''v'', ''t'', ''f'', ''w'',
      ''2019'', ''me'', ''pub'', ''CC0'', ''extra''])
   \<and> projr (MediaHandler_dictify
     [''OCC1'', ''2020-01-01'', ''g1'', ''a.jpg'', ''jpg'', ''v'', ''t'', ''f'', ''w'',
      ''2019'', ''me'', ''pub'', ''CC0'', ''extra'']) ''license'' = Some (PStr ''CC0'')
   \<and> \<not> isl (TypesHandler_dictify (''12'' # replicate 19 ''x''))
   \<and> projr (TypesHandler_dictify (''12'' # replicate 19 ''x'')) ''occurrence_id''
       = Some (PInt 12)"
  by (simp add: MediaHandler_dictify_def media_fields_def TypesHandler_dictify_def
      type_fields_def bind_exn_def pop0_def transform_empty_to_none_def dom_def
      int_of_str_def strip_def isspace_def drop_sign_def isdigit_def digits_value_def
      numeral_eq_Suc)

text \<open>
  Claim C10: an annotation row of 34 columns whose third column is the empty string makes
  \<^verbatim>\<open>AnnotationsHandler.dictify\<close> raise: \<^verbatim>\<open>seq_num[0]\<close> on the empty string is an
  \<^verbatim>\<open>IndexError\<close>. So the decoder is not total on rows of the right length.
\<close>

theorem annotation_empty_sequence_number_raises:
  assumes "length r = 34" and "r ! 2 = []"
  shows "AnnotationsHandler_dictify r = Inl IndexError"
  using assms cols_empty[of r]
  by (simp add: AnnotationsHandler_dictify_def bind_exn_def)

theorem annotation_empty_sequence_number_raises_witness:
  "length ([''OCC1'', ''Y'', ''''] @ replicate 31 ''x'') = 34
   \<and> ([''OCC1'', ''Y'', ''''] @ replicate 31 ''x'') ! 2 = []
   \<and> AnnotationsHandler_dictify ([''OCC1'', ''Y'', ''''] @ replicate 31 ''x'')
       = Inl IndexError"
  using annotation_empty_sequence_number_raises
          [of "[''OCC1'', ''Y'', ''''] @ replicate 31 ''x''"]
  by simp


text \<open>
  Claim C9, as stated, fails where it says that the sequence number equals the raw value
  whenever that value does not start with a letter: the value \<^verbatim>\<open>"?"\<close> does not start with
  a letter, and the decoded sequence number is null, because the helpers run after the
  columns are read. This row has \<^verbatim>\<open>"?"\<close> in its third column.
\<close>

theorem annotation_question_mark_counterexample:
  "\<not> isl (AnnotationsHandler_dictify
            ([''OCC1'', ''Y'', ''?'', ''Asteraceae''] @ replicate 25 ''''
              @ [''12'', ''5'', ''1999'', '''', '''']))
   \<and> projr (AnnotationsHandler_dictify
            ([''OCC1'', ''Y'', ''?'', ''Asteraceae''] @ replicate 25 ''''
              @ [''12'', ''5'', ''1999'', '''', ''''])) ''sequence_number''
       = Some PNone
   \<and> projr (AnnotationsHandler_dictify
            ([''OCC1'', ''Y'', ''?'', ''Asteraceae''] @ replicate 25 ''''
              @ [''12'', ''5'', ''1999'', '''', ''''])) ''sequence_number''
       \<noteq> Some (PStr ''?'')"
  using annotation_decode_other
          [of "[''OCC1'', ''Y'', ''?'', ''Asteraceae''] @ replicate 25 ''''
                 @ [''12'', ''5'', ''1999'', '''', '''']"]
  by (auto simp: isalpha_def)

text \<open>
  Claim C9, amended: for every annotation row of 34 columns whose third column is not
  empty, if that column starts with a letter, the decoded sequence number is null and the
  family is that column; otherwise the sequence number is that column, or null when the
  column is \<^verbatim>\<open>"?"\<close>, and the family is the fourth column, or null when the fourth column is
  empty.
\<close>

theorem annotation_sequence_number_rule:
  assumes "length r = 34" and "r ! 2 \<noteq> []"
  shows "\<exists>d. AnnotationsHandler_dictify r = Inr d \<and>
           (if isalpha (hd (r ! 2))
            then d ''sequence_number'' = Some PNone \<and> d ''family'' = Some (PStr (r ! 2))
            else d ''sequence_number'' = Some (if r ! 2 = ''?'' then PNone else PStr (r ! 2))
               \<and> d ''family'' = Some (if r ! 3 = [] then PNone else PStr (r ! 3)))"
proof (cases "isalpha (hd (r ! 2))")
  case True
  from annotation_decode_alpha[OF assms True] show ?thesis using True by auto
next
  case False
  from annotation_decode_other[OF assms False] show ?thesis using False by auto
qed

theorem annotation_sequence_number_rule_witness:
  "(\<exists>d. AnnotationsHandler_dictify ([''OCC1'', ''Y'', ''Asteraceae''] @ replicate 31 '''')
          = Inr d
        \<and> d ''sequence_number'' = Some PNone \<and> d ''family'' = Some (PStr ''Asteraceae''))
   \<and> (\<exists>d. AnnotationsHandler_dictify
             ([''OCC1'', ''Y'', ''42'', ''Asteraceae''] @ replicate 30 '''') = Inr d
        \<and> d ''sequence_number'' = Some (PStr ''42'') \<and> d ''family'' = Some (PStr ''Asteraceae''))"
  using annotation_sequence_number_rule
          [of "[''OCC1'', ''Y'', ''Asteraceae''] @ replicate 31 ''''"]
        annotation_sequence_number_rule
          [of "[''OCC1'', ''Y'', ''42'', ''Asteraceae''] @ replicate 30 ''''"]
  by (simp add: isalpha_def)

text \<open>
  Claim C4, as stated, fails: the decoder moves the next column into \<^verbatim>\<open>annotated_by\<close> when
  the month column is \<^verbatim>\<open>"ICBN"\<close>, not when the day column is. In this row the day is
  \<^verbatim>\<open>"ICBN"\<close> and the month is \<^verbatim>\<open>"5"\<close>: the day decodes to null, the year stays
  \<^verbatim>\<open>"1999"\<close> and \<^verbatim>\<open>annotated_by\<close> stays \<^verbatim>\<open>"Smith"\<close>.
\<close>

theorem annotation_day_icbn_counterexample:
  "\<not> isl (AnnotationsHandler_dictify
            ([''OCC1'', ''Y'', ''1'', ''Asteraceae''] @ replicate 24 ''''
              @ [''Smith'', ''ICBN'', ''5'', ''1999'', '''', '''']))
   \<and> projr (AnnotationsHandler_dictify
            ([''OCC1'', ''Y'', ''1'', ''Asteraceae''] @ replicate 24 ''''
              @ [''Smith'', ''ICBN'', ''5'', ''1999'', '''', ''''])) ''day_annotated''
       = Some PNone
   \<and> projr (AnnotationsHandler_dictify
            ([''OCC1'', ''Y'', ''1'', ''Asteraceae''] @ replicate 24 ''''
              @ [''Smith'', ''ICBN'', ''5'', ''1999'', '''', ''''])) ''year_annotated''
       = Some (PStr ''1999'')
   \<and> projr (AnnotationsHandler_dictify
            ([''OCC1'', ''Y'', ''1'', ''Asteraceae''] @ replicate 24 ''''
              @ [''Smith'', ''ICBN'', ''5'', ''1999'', '''', ''''])) ''annotated_by''
       = Some (PStr ''Smith'')"
  using annotation_decode_other
          [of "[''OCC1'', ''Y'', ''1'', ''Asteraceae''] @ replicate 24 ''''
                 @ [''Smith'', ''ICBN'', ''5'', ''1999'', '''', '''']"]
  by (auto simp: isalpha_def nth_append)

text \<open>
  Claim C4, amended: for every annotation row of 34 columns whose third column is not
  empty, a day column \<^verbatim>\<open>"ICBN"\<close> gives a null \<^verbatim>\<open>day_annotated\<close>; a month column \<^verbatim>\<open>"ICBN"\<close>
  gives a null \<^verbatim>\<open>month_annotated\<close>, a null \<^verbatim>\<open>year_annotated\<close>, and \<^verbatim>\<open>annotated_by\<close> taken
  from the column that otherwise becomes \<^verbatim>\<open>year_annotated\<close> (null when that column is
  empty); with any other month column, that column becomes \<^verbatim>\<open>year_annotated\<close>, whatever
  the day column is. The day column is the column 28 when the third column starts with a
  letter and the column 29 otherwise, counting from 0; the month and the year follow it.
\<close>

theorem annotation_icbn_rule:
  assumes "length r = 34" and "r ! 2 \<noteq> []"
  shows "\<exists>d. AnnotationsHandler_dictify r = Inr d \<and>
           (let day = (if isalpha (hd (r ! 2)) then 28 else 29) in
              (r ! day = ''ICBN'' \<longrightarrow> d ''day_annotated'' = Some PNone) \<and>
              (r ! (day + 1) = ''ICBN'' \<longrightarrow>
                 d ''month_annotated'' = Some PNone \<and> d ''year_annotated'' = Some PNone \<and>
                 d ''annotated_by'' =
                   Some (if r ! (day + 2) = [] then PNone else PStr (r ! (day + 2)))) \<and>
              (r ! (day + 1) \<noteq> ''ICBN'' \<longrightarrow>
                 d ''year_annotated'' =
                   Some (if r ! (day + 2) = [] then PNone else PStr (r ! (day + 2)))))"
proof (cases "isalpha (hd (r ! 2))")
  case True
  from annotation_decode_alpha[OF assms True] show ?thesis using True by auto
next
  case False
  from annotation_decode_other[OF assms False] show ?thesis using False by auto
qed

theorem annotation_icbn_rule_witness:
  "\<exists>d. AnnotationsHandler_dictify
          ([''OCC1'', ''Y'', ''1'', ''Asteraceae''] @ replicate 24 ''''
             @ [''x'', ''12'', ''ICBN'', ''Smith'', '''', '''']) = Inr d
      \<and> d ''month_annotated'' = Some PNone \<and> d ''year_annotated'' = Some PNone
      \<and> d ''annotated_by'' = Some (PStr ''Smith'')"
  using annotation_icbn_rule
          [of "[''OCC1'', ''Y'', ''1'', ''Asteraceae''] @ replicate 24 ''''
                 @ [''x'', ''12'', ''ICBN'', ''Smith'', '''', '''']"]
  by (simp add: isalpha_def nth_append)


section \<open>Properties of the ingestion handler\<close>

lemma bulk_inserts_append: "bulk_inserts (a @ b) = bulk_inserts a @ bulk_inserts b"
  by (induction a rule: bulk_inserts.induct) simp_all

lemma errors_logged_append: "errors_logged (a @ b) = errors_logged a @ errors_logged b"
  by (induction a rule: errors_logged.induct) simp_all

lemma bulk_inserts_batch_insert:
  "bulk_inserts (batch_insert execute es tr) = bulk_inserts tr @ [es]"
  by (simp add: batch_insert_def Let_def bulk_inserts_append split: option.splits)

lemma errors_logged_batch_insert:
  "errors_logged (batch_insert execute es tr) =
     errors_logged tr @ (case execute (tr @ [CursorOpened]) es of None \<Rightarrow> [] | Some e \<Rightarrow> [e])"
  by (simp add: batch_insert_def Let_def errors_logged_append split: option.splits)

text \<open>The rows the filter keeps.\<close>

lemma handle_rows_forwarded:
  assumes "map dictify rows = map Inr ds" and "\<forall>d\<in>set ds. d ''occurrence_id'' \<noteq> None"
  shows "\<exists>rest tr'. handle_rows dictify execute valid_keys b skip nc rows entities tr
             = (Inr rest, tr')
         \<and> concat (bulk_inserts tr') @ rest
             = concat (bulk_inserts tr) @ entities
               @ filter (\<lambda>d. skip \<or> (\<exists>k. d ''occurrence_id'' = Some k \<and> py_in k valid_keys)) ds"
  using assms
proof (induction rows arbitrary: ds entities tr)
  case Nil
  then show ?case by simp
next
  case (Cons r rows)
  then obtain d ds' where ds: "ds = d # ds'" "dictify r = Inr d" "map dictify rows = map Inr ds'"
    by (cases ds) auto
  from Cons.prems ds obtain k where k: "d ''occurrence_id'' = Some k" by auto
  have ds': "\<forall>d\<in>set ds'. d ''occurrence_id'' \<noteq> None" using Cons.prems ds by simp
  define entities1 where "entities1 =
     (if skip \<or> py_in k valid_keys then entities @ [d] else entities)"
  define entities2 where "entities2 = (if int (length entities1) \<ge> b then [] else entities1)"
  define tr3 where "tr3 =
     (let tr2 = (if int (length entities1) \<ge> b then batch_insert execute entities1 tr else tr)
      in if \<not> nc then tr2 @ [Committed] else tr2)"
  have step: "handle_rows dictify execute valid_keys b skip nc (r # rows) entities tr
      = handle_rows dictify execute valid_keys b skip nc rows entities2 tr3"
    using ds k by (simp add: entities1_def entities2_def tr3_def bind_exn_def getitem_def Let_def)
  from Cons.IH[OF ds(3) ds', of entities2 tr3] obtain rest tr' where
    r: "handle_rows dictify execute valid_keys b skip nc rows entities2 tr3 = (Inr rest, tr')"
    "concat (bulk_inserts tr') @ rest = concat (bulk_inserts tr3) @ entities2
        @ filter (\<lambda>d. skip \<or> (\<exists>k. d ''occurrence_id'' = Some k \<and> py_in k valid_keys)) ds'"
    by blast
  have "concat (bulk_inserts tr3) @ entities2 = concat (bulk_inserts tr) @ entities1"
    by (simp add: tr3_def entities2_def Let_def bulk_inserts_append bulk_inserts_batch_insert)
  then show ?case using r step ds k
    by (auto simp: entities1_def)
qed


lemma div_add_batch: "0 < (b::nat) \<Longrightarrow> (k + b) div b = Suc (k div b)"
  using div_mult_self1[of b k 1] by (simp add: add.commute)

lemma spec_batches_Nil: "0 < b \<Longrightarrow> spec_batches b [] = []"
  by (simp add: spec_batches_def)

lemma spec_batches_short:
  assumes "xs \<noteq> []" and "length xs < b"
  shows "spec_batches b xs = [xs]"
proof -
  from assms obtain m where m: "length xs = Suc m"
    by (cases xs) auto
  have "(length xs + b - 1) div b = (m + b) div b"
    using m by simp
  also have "\<dots> = 1"
    using assms m by (simp add: div_add_batch)
  finally show ?thesis using assms by (simp add: spec_batches_def)
qed

lemma spec_batches_full:
  assumes "length ys = b" and "0 < b"
  shows "spec_batches b (ys @ zs) = ys # spec_batches b zs"
proof -
  define k where "k = length zs + b - 1"
  have "length (ys @ zs) + b - 1 = k + b"
    using assms by (simp add: k_def)
  moreover have "(k + b) div b = Suc (k div b)"
    using assms by (simp add: div_add_batch)
  ultimately have n: "(length (ys @ zs) + b - 1) div b = Suc ((length zs + b - 1) div b)"
    by (simp add: k_def)
  have u: "[0..<Suc ((length zs + b - 1) div b)] = 0 # map Suc [0..<(length zs + b - 1) div b]"
    by (simp add: upt_conv_Cons map_Suc_upt del: upt_Suc)
  have g0: "take b (drop (0 * b) (ys @ zs)) = ys"
    using assms by simp
  have gS: "take b (drop (Suc i * b) (ys @ zs)) = take b (drop (i * b) zs)" for i
    using assms by simp
  have "spec_batches b (ys @ zs)
      = map (\<lambda>i. take b (drop (i * b) (ys @ zs))) (0 # map Suc [0..<(length zs + b - 1) div b])"
    unfolding spec_batches_def n u ..
  also have "\<dots> = ys # spec_batches b zs"
    unfolding list.map g0 map_map comp_def gS spec_batches_def ..
  finally show ?thesis .
qed

lemma handle_rows_batches:
  assumes "0 < b" and "map dictify rows = map Inr ds"
    and "\<forall>d\<in>set ds. d ''occurrence_id'' \<noteq> None" and "length entities < b"
  shows "\<exists>rest tr'. handle_rows dictify execute valid_keys (int b) skip nc rows entities tr
             = (Inr rest, tr')
         \<and> length rest < b
         \<and> bulk_inserts tr' @ (if rest = [] then [] else [rest])
             = bulk_inserts tr @ spec_batches b (entities
               @ filter (\<lambda>d. skip \<or> (\<exists>k. d ''occurrence_id'' = Some k \<and> py_in k valid_keys)) ds)"
  using assms(2-)
proof (induction rows arbitrary: ds entities tr)
  case Nil
  then show ?case using assms(1)
    by (simp add: spec_batches_Nil spec_batches_short)
next
  case (Cons r rows)
  let ?keep = "\<lambda>d. skip \<or> (\<exists>k. d ''occurrence_id'' = Some k \<and> py_in k valid_keys)"
  from Cons.prems obtain d ds' where ds: "ds = d # ds'" "dictify r = Inr d"
    "map dictify rows = map Inr ds'"
    by (cases ds) auto
  from Cons.prems ds obtain k where k: "d ''occurrence_id'' = Some k" by auto
  have ds': "\<forall>d\<in>set ds'. d ''occurrence_id'' \<noteq> None" using Cons.prems ds by simp
  define entities1 where "entities1 =
     (if skip \<or> py_in k valid_keys then entities @ [d] else entities)"
  define entities2 where "entities2 = (if length entities1 \<ge> b then [] else entities1)"
  define tr3 where "tr3 =
     (let tr2 = (if length entities1 \<ge> b then batch_insert execute entities1 tr else tr)
      in if \<not> nc then tr2 @ [Committed] else tr2)"
  have step: "handle_rows dictify execute valid_keys (int b) skip nc (r # rows) entities tr
      = handle_rows dictify execute valid_keys (int b) skip nc rows entities2 tr3"
    using ds k by (simp add: entities1_def entities2_def tr3_def bind_exn_def getitem_def Let_def)
  have l2: "length entities2 < b"
    using assms(1) by (simp add: entities2_def)
  from Cons.IH[OF ds(3) ds' l2, of tr3] obtain rest tr' where
    r: "handle_rows dictify execute valid_keys (int b) skip nc rows entities2 tr3 = (Inr rest, tr')"
    "length rest < b"
    "bulk_inserts tr' @ (if rest = [] then [] else [rest])
       = bulk_inserts tr3 @ spec_batches b (entities2 @ filter ?keep ds')"
    by blast
  have e1: "entities @ filter ?keep ds = entities1 @ filter ?keep ds'"
    using ds k by (simp add: entities1_def)
  have "bulk_inserts tr3 @ spec_batches b (entities2 @ filter ?keep ds')
      = bulk_inserts tr @ spec_batches b (entities1 @ filter ?keep ds')"
  proof (cases "length entities1 \<ge> b")
    case True
    then have "length entities1 = b"
      using Cons.prems(3) by (simp add: entities1_def split: if_splits)
    then show ?thesis
      using True assms(1)
      by (simp add: tr3_def entities2_def Let_def bulk_inserts_append bulk_inserts_batch_insert
          spec_batches_full)
  next
    case False
    then show ?thesis
      by (simp add: tr3_def entities2_def Let_def bulk_inserts_append)
  qed
  then show ?case using r step e1 by simp
qed

lemma handle_rows_sink_independent:
  "fst (handle_rows dictify e vk b s nc rows ents tr)
     = fst (handle_rows dictify e' vk b s nc rows ents tr')
   \<and> (\<exists>X. bulk_inserts (snd (handle_rows dictify e vk b s nc rows ents tr))
             = bulk_inserts tr @ X
         \<and> bulk_inserts (snd (handle_rows dictify e' vk b s nc rows ents tr'))
             = bulk_inserts tr' @ X)"
proof (induction rows arbitrary: ents tr tr')
  case Nil
  then show ?case by simp
next
  case (Cons r rows)
  show ?case
  proof (cases "dictify r")
    case (Inl x)
    then show ?thesis by simp
  next
    case (Inr d)
    show ?thesis
    proof (cases "if \<not> s then bind_exn (getitem d ''occurrence_id'')
                      (\<lambda>k. Inr (if py_in k vk then ents @ [d] else ents))
                  else Inr (ents @ [d])")
      case (Inl x)
      then show ?thesis using Inr by simp
    next
      case ents1: (Inr entities1)
      define entities2 where "entities2 = (if int (length entities1) \<ge> b then [] else entities1)"
      define A where "A = (\<lambda>ex t.
        (let tr2 = (if int (length entities1) \<ge> b then batch_insert ex entities1 t else t)
         in if \<not> nc then tr2 @ [Committed] else tr2))"
      have step: "handle_rows dictify ex vk b s nc (r # rows) ents t
          = handle_rows dictify ex vk b s nc rows entities2 (A ex t)" for ex t
        using Inr ents1 by (simp add: entities2_def A_def Let_def)
      have A: "bulk_inserts (A ex t)
          = bulk_inserts t @ (if int (length entities1) \<ge> b then [entities1] else [])" for ex t
        by (simp add: A_def Let_def bulk_inserts_append bulk_inserts_batch_insert)
      from Cons.IH[of entities2 "A e tr" "A e' tr'"] obtain X where
        X: "fst (handle_rows dictify e vk b s nc rows entities2 (A e tr))
              = fst (handle_rows dictify e' vk b s nc rows entities2 (A e' tr'))"
           "bulk_inserts (snd (handle_rows dictify e vk b s nc rows entities2 (A e tr)))
              = bulk_inserts (A e tr) @ X"
           "bulk_inserts (snd (handle_rows dictify e' vk b s nc rows entities2 (A e' tr')))
              = bulk_inserts (A e' tr') @ X"
        by blast
      show ?thesis
        unfolding step using X
        by (intro conjI exI[of _ "(if int (length entities1) \<ge> b then [entities1] else []) @ X"])
          (simp_all add: A)
    qed
  qed
qed

lemma handle_rows_errors:
  "\<exists>X. bulk_inserts (snd (handle_rows dictify (\<lambda>h. f (length (bulk_inserts h))) vk b s nc
                            rows ents tr)) = bulk_inserts tr @ X
      \<and> errors_logged (snd (handle_rows dictify (\<lambda>h. f (length (bulk_inserts h))) vk b s nc
                               rows ents tr))
          = errors_logged tr
            @ List.map_filter (\<lambda>(i, es). f i es) (enumerate (length (bulk_inserts tr)) X)"
proof (induction rows arbitrary: ents tr)
  case Nil
  show ?case by (simp add: List.map_filter_simps)
next
  case (Cons r rows)
  let ?e = "\<lambda>h. f (length (bulk_inserts h))"
  show ?case
  proof (cases "dictify r")
    case (Inl x)
    then show ?thesis by (simp add: List.map_filter_simps)
  next
    case (Inr d)
    show ?thesis
    proof (cases "if \<not> s then bind_exn (getitem d ''occurrence_id'')
                      (\<lambda>k. Inr (if py_in k vk then ents @ [d] else ents))
                  else Inr (ents @ [d])")
      case (Inl x)
      then show ?thesis using Inr by (simp add: List.map_filter_simps)
    next
      case ents1: (Inr entities1)
      define entities2 where "entities2 = (if int (length entities1) \<ge> b then [] else entities1)"
      define tr3 where "tr3 =
        (let tr2 = (if int (length entities1) \<ge> b then batch_insert ?e entities1 tr else tr)
         in if \<not> nc then tr2 @ [Committed] else tr2)"
      have step: "handle_rows dictify ?e vk b s nc (r # rows) ents tr
          = handle_rows dictify ?e vk b s nc rows entities2 tr3"
        using Inr ents1 by (simp add: entities2_def tr3_def Let_def)
      from Cons.IH[of entities2 tr3] obtain X where
        X: "bulk_inserts (snd (handle_rows dictify ?e vk b s nc rows entities2 tr3))
              = bulk_inserts tr3 @ X"
           "errors_logged (snd (handle_rows dictify ?e vk b s nc rows entities2 tr3))
              = errors_logged tr3
                @ List.map_filter (\<lambda>(i, es). f i es) (enumerate (length (bulk_inserts tr3)) X)"
        by blast
      show ?thesis
      proof (cases "int (length entities1) \<ge> b")
        case True
        then have b3: "bulk_inserts tr3 = bulk_inserts tr @ [entities1]"
          and e3: "errors_logged tr3 = errors_logged tr
                @ (case f (length (bulk_inserts tr)) entities1 of None \<Rightarrow> [] | Some e \<Rightarrow> [e])"
          by (simp_all add: tr3_def Let_def bulk_inserts_append bulk_inserts_batch_insert
              errors_logged_append errors_logged_batch_insert)
        show ?thesis
          using X unfolding step b3 e3
          by (intro exI[of _ "entities1 # X"])
            (simp add: List.map_filter_simps split: option.splits)
      next
        case False
        then have "bulk_inserts tr3 = bulk_inserts tr" "errors_logged tr3 = errors_logged tr"
          by (simp_all add: tr3_def Let_def bulk_inserts_append errors_logged_append)
        then show ?thesis using X unfolding step by auto
      qed
    qed
  qed
qed

lemma handle_rows_nothing_forwarded:
  assumes "\<And>r d k. dictify r = Inr d \<Longrightarrow> d ''occurrence_id'' = Some k \<Longrightarrow> \<not> py_in k vk"
  shows "concat (bulk_inserts (snd (handle_rows dictify e vk b False nc rows [] tr)))
           = concat (bulk_inserts tr)
         \<and> (\<forall>rest. fst (handle_rows dictify e vk b False nc rows [] tr) = Inr rest \<longrightarrow> rest = [])"
proof (induction rows arbitrary: tr)
  case Nil
  then show ?case by simp
next
  case (Cons r rows)
  show ?case
  proof (cases "dictify r")
    case (Inl x)
    then show ?thesis by simp
  next
    case (Inr d)
    show ?thesis
    proof (cases "d ''occurrence_id''")
      case None
      then show ?thesis using Inr by (simp add: bind_exn_def getitem_def)
    next
      case (Some k)
      with assms Inr have "\<not> py_in k vk" by blast
      then show ?thesis
        using Inr Some Cons.IH
        by (simp add: bind_exn_def getitem_def Let_def bulk_inserts_append
            bulk_inserts_batch_insert)
    qed
  qed
qed

lemma spec_batches_nth:
  assumes "i < length xs div b"
  shows "spec_batches b xs ! i = take b (drop (i * b) xs) \<and> length (spec_batches b xs ! i) = b"
proof -
  have b: "0 < b" using assms by (cases b) simp_all
  have "Suc i \<le> length xs div b" using assms by simp
  then have "Suc i * b \<le> (length xs div b) * b" by (rule mult_le_mono1)
  also have "\<dots> \<le> length xs" by simp
  finally have le: "i * b + b \<le> length xs" by simp
  have "length xs div b \<le> (length xs + b - 1) div b"
    using b by (intro div_le_mono) simp
  with assms have "i < (length xs + b - 1) div b" by simp
  then have "spec_batches b xs ! i = take b (drop (i * b) xs)"
    by (simp add: spec_batches_def)
  then show ?thesis using le by simp
qed

lemma spec_batches_last:
  assumes b: "0 < b" and "0 < length xs mod b"
  shows "last (spec_batches b xs) = drop (length xs - length xs mod b) xs
       \<and> length (last (spec_batches b xs)) = length xs mod b"
proof -
  define q where "q = length xs div b"
  define m where "m = length xs mod b"
  have n: "length xs = q * b + m" by (simp add: q_def m_def)
  have m: "0 < m" "m < b" using assms b by (simp_all add: m_def)
  then obtain m' where m': "m = Suc m'" by (cases m) auto
  have "length xs + b - 1 = (q * b + m') + b" using n m' by simp
  then have "(length xs + b - 1) div b = Suc ((q * b + m') div b)"
    using b by (simp add: div_add_batch)
  moreover have "(q * b + m') div b = q" using m m' b by simp
  ultimately have c: "(length xs + b - 1) div b = Suc q" by simp
  have "last (spec_batches b xs) = take b (drop (q * b) xs)"
    unfolding spec_batches_def c by (simp add: last_map)
  moreover have "length (drop (q * b) xs) = m" using n by simp
  moreover have "q * b = length xs - length xs mod b" using n by (simp add: m_def)
  ultimately show ?thesis using m by (simp add: m_def)
qed

lemma handle_Cons:
  "handle dictify execute valid_keys b skip nc (header # rows) tr =
     (case handle_rows dictify execute valid_keys b skip nc rows [] tr of
        (Inl e, tr') \<Rightarrow> (Some e, tr')
      | (Inr entities, tr') \<Rightarrow>
          (None, if entities \<noteq> [] then batch_insert execute entities tr' else tr'))"
  by (simp add: handle_def split: prod.splits sum.splits)

section \<open>The claims about the ingestion handler\<close>

text \<open>
  Claim C5: when every row of the file decodes (to the mappings \<open>ds\<close>, each with an
  \<^verbatim>\<open>occurrence_id\<close>), the run ends without an exception and the rows handed to the sink,
  all batches together, are in the order of the file: with \<^verbatim>\<open>skip_fkey_validation\<close> false,
  exactly the rows whose \<^verbatim>\<open>occurrence_id\<close> is in the set of valid keys; with
  \<^verbatim>\<open>skip_fkey_validation\<close> true, every row.
\<close>

theorem handle_forwards_valid_rows:
  assumes "map dictify rows = map Inr ds" and "\<forall>d\<in>set ds. d ''occurrence_id'' \<noteq> None"
  shows "fst (handle dictify execute valid_keys b False nc (header # rows) tr) = None
       \<and> concat (bulk_inserts
                   (snd (handle dictify execute valid_keys b False nc (header # rows) tr)))
           = concat (bulk_inserts tr)
             @ filter (\<lambda>d. \<exists>k. d ''occurrence_id'' = Some k \<and> py_in k valid_keys) ds
       \<and> fst (handle dictify execute valid_keys b True nc (header # rows) tr) = None
       \<and> concat (bulk_inserts
                   (snd (handle dictify execute valid_keys b True nc (header # rows) tr)))
           = concat (bulk_inserts tr) @ ds"
proof -
  have "fst (handle dictify execute valid_keys b skip nc (header # rows) tr) = None
      \<and> concat (bulk_inserts
                  (snd (handle dictify execute valid_keys b skip nc (header # rows) tr)))
          = concat (bulk_inserts tr)
            @ filter (\<lambda>d. skip \<or> (\<exists>k. d ''occurrence_id'' = Some k \<and> py_in k valid_keys)) ds"
    for skip
  proof -
    from handle_rows_forwarded[OF assms, of execute valid_keys b skip nc "[]" tr]
    obtain rest tr' where
      r: "handle_rows dictify execute valid_keys b skip nc rows [] tr = (Inr rest, tr')"
         "concat (bulk_inserts tr') @ rest = concat (bulk_inserts tr) @ []
            @ filter (\<lambda>d. skip \<or> (\<exists>k. d ''occurrence_id'' = Some k \<and> py_in k valid_keys)) ds"
      by blast
    show ?thesis
      using r by (auto simp: handle_Cons bulk_inserts_batch_insert)
  qed
  from this[of False] this[of True] show ?thesis by simp
qed

theorem handle_forwards_valid_rows_witness:
  "concat (bulk_inserts (snd (handle MediaHandler_dictify (\<lambda>h es. None)
      {PStr ''OCC1'', PStr ''OCC2''} 10000 False True
      [replicate 13 ''header'', ''OCC1'' # replicate 12 ''a'', ''OCC3'' # replicate 12 ''b'']
      [])))
   = [projr (MediaHandler_dictify (''OCC1'' # replicate 12 ''a''))]"
  using handle_forwards_valid_rows
    [of MediaHandler_dictify
        "[''OCC1'' # replicate 12 ''a'', ''OCC3'' # replicate 12 ''b'']"
        "[projr (MediaHandler_dictify (''OCC1'' # replicate 12 ''a'')),
          projr (MediaHandler_dictify (''OCC3'' # replicate 12 ''b''))]"
        "\<lambda>h es. None" "{PStr ''OCC1'', PStr ''OCC2''}" 10000 True "replicate 13 ''header''" "[]"]
  by (simp add: MediaHandler_dictify_def media_fields_def bind_exn_def pop0_def
      transform_empty_to_none_def dom_def numeral_eq_Suc py_in_def py_eq_def)

text \<open>
  Claim C6: with a batch size \<open>b > 0\<close>, when every row of the file decodes, the run ends
  without an exception and the sink receives, for the \<open>n\<close> rows \<open>xs\<close> that pass the filter,
  \<open>\<lceil>n / b\<rceil>\<close> bulk inserts: call \<open>i\<close> holds the rows from \<open>i * b\<close> on; each of the first
  \<open>\<lfloor>n / b\<rfloor>\<close> calls holds exactly \<open>b\<close> rows, and when \<open>n mod b > 0\<close> one last call holds
  the remaining \<open>n mod b\<close> rows.
\<close>

theorem handle_batches:
  assumes "0 < b" and "map dictify rows = map Inr ds"
    and "\<forall>d\<in>set ds. d ''occurrence_id'' \<noteq> None"
  shows "let xs = filter (\<lambda>d. skip \<or> (\<exists>k. d ''occurrence_id'' = Some k \<and> py_in k valid_keys)) ds;
             n = length xs;
             run = handle dictify execute valid_keys (int b) skip nc (header # rows) tr;
             calls = spec_batches b xs
         in fst run = None
          \<and> bulk_inserts (snd run) = bulk_inserts tr @ calls
          \<and> length calls = (n + b - 1) div b
          \<and> (\<forall>i < n div b. calls ! i = take b (drop (i * b) xs) \<and> length (calls ! i) = b)
          \<and> (0 < n mod b \<longrightarrow>
               last calls = drop (n - n mod b) xs \<and> length (last calls) = n mod b)"
proof -
  let ?xs = "filter (\<lambda>d. skip \<or> (\<exists>k. d ''occurrence_id'' = Some k \<and> py_in k valid_keys)) ds"
  from handle_rows_batches[OF assms, of "[]" execute valid_keys skip nc tr]
  obtain rest tr' where
    r: "handle_rows dictify execute valid_keys (int b) skip nc rows [] tr = (Inr rest, tr')"
       "bulk_inserts tr' @ (if rest = [] then [] else [rest])
          = bulk_inserts tr @ spec_batches b ([] @ ?xs)"
    using assms(1) by auto
  have run: "fst (handle dictify execute valid_keys (int b) skip nc (header # rows) tr) = None"
    "bulk_inserts (snd (handle dictify execute valid_keys (int b) skip nc (header # rows) tr))
       = bulk_inserts tr @ spec_batches b ?xs"
    using r by (auto simp: handle_Cons bulk_inserts_batch_insert split: if_splits)
  have len: "length (spec_batches b ?xs) = (length ?xs + b - 1) div b"
    by (simp add: spec_batches_def)
  show ?thesis
    unfolding Let_def
    using run len spec_batches_nth[of _ ?xs b] spec_batches_last[OF assms(1), of ?xs]
    by blast
qed

theorem handle_batches_witness:
  "map length (bulk_inserts (snd (handle (\<lambda>r. Inr [''occurrence_id'' \<mapsto> PStr (hd r)])
      (\<lambda>h es. None) {} 2 True True
      [[''header''], [''A''], [''B''], [''C''], [''D''], [''E'']] [])))
   = [2, 2, 1]"
  using handle_batches
    [of 2 "\<lambda>r. Inr [''occurrence_id'' \<mapsto> PStr (hd r)]"
        "[[''A''], [''B''], [''C''], [''D''], [''E'']]"
        "map (\<lambda>r. [''occurrence_id'' \<mapsto> PStr (hd r)])
           [[''A''], [''B''], [''C''], [''D''], [''E'']]"
        True "{}" "\<lambda>h es. None" True "[''header'']" "[]"]
  by (simp add: Let_def spec_batches_def upt_conv_Cons)

text \<open>
  Claim C7: when the bulk insert of a batch raises, \<^verbatim>\<open>batch_insert\<close> logs that one error,
  rolls back, closes the cursor and returns; the exception that leaves \<^verbatim>\<open>handle\<close>, if any,
  and the batches handed to the sink are the same as with a sink that never fails, so
  every other batch is still attempted; and for a sink that fails on chosen calls
  (\<open>f i batch\<close> for the call number \<open>i\<close>), the errors logged are exactly those of the
  failing calls, one for each.
\<close>

theorem batch_failure_isolated:
  "(execute (tr @ [CursorOpened]) es = Some err \<longrightarrow>
      batch_insert execute es tr
        = tr @ [CursorOpened, Executed es, ErrorLogged err, RolledBack, CursorClosed])
   \<and> fst (handle dictify execute vk b s nc file tr)
       = fst (handle dictify (\<lambda>h es. None) vk b s nc file tr)
   \<and> bulk_inserts (snd (handle dictify execute vk b s nc file tr))
       = bulk_inserts (snd (handle dictify (\<lambda>h es. None) vk b s nc file tr))
   \<and> (let tr' = snd (handle dictify (\<lambda>h. f (length (bulk_inserts h))) vk b s nc file tr)
      in errors_logged tr'
           = errors_logged tr
             @ List.map_filter (\<lambda>(i, es). f i es)
                 (enumerate (length (bulk_inserts tr))
                    (drop (length (bulk_inserts tr)) (bulk_inserts tr'))))"
proof (intro conjI)
  show "execute (tr @ [CursorOpened]) es = Some err \<longrightarrow>
      batch_insert execute es tr
        = tr @ [CursorOpened, Executed es, ErrorLogged err, RolledBack, CursorClosed]"
    by (simp add: batch_insert_def)
next
  show "fst (handle dictify execute vk b s nc file tr)
       = fst (handle dictify (\<lambda>h es. None) vk b s nc file tr)"
  proof (cases "file")
    case Nil
    then show ?thesis by (simp add: handle_def)
  next
    case (Cons header rows)
    from handle_rows_sink_independent[of dictify execute vk b s nc rows "[]" tr "\<lambda>h es. None" tr]
    show ?thesis
      unfolding Cons handle_Cons
      by (auto split: prod.splits sum.splits)
  qed
next
  show "bulk_inserts (snd (handle dictify execute vk b s nc file tr))
       = bulk_inserts (snd (handle dictify (\<lambda>h es. None) vk b s nc file tr))"
  proof (cases "file")
    case Nil
    then show ?thesis by (simp add: handle_def)
  next
    case (Cons header rows)
    from handle_rows_sink_independent[of dictify execute vk b s nc rows "[]" tr "\<lambda>h es. None" tr]
    show ?thesis
      unfolding Cons handle_Cons
      by (auto simp: bulk_inserts_batch_insert split: prod.splits sum.splits)
  qed
next
  let ?e = "\<lambda>h. f (length (bulk_inserts h))"
  show "let tr' = snd (handle dictify ?e vk b s nc file tr)
      in errors_logged tr'
           = errors_logged tr
             @ List.map_filter (\<lambda>(i, es). f i es)
                 (enumerate (length (bulk_inserts tr))
                    (drop (length (bulk_inserts tr)) (bulk_inserts tr')))"
  proof (cases "file")
    case Nil
    then show ?thesis by (simp add: handle_def List.map_filter_simps)
  next
    case (Cons header rows)
    from handle_rows_errors[of dictify f vk b s nc rows "[]" tr] obtain X where
      X: "bulk_inserts (snd (handle_rows dictify ?e vk b s nc rows [] tr)) = bulk_inserts tr @ X"
         "errors_logged (snd (handle_rows dictify ?e vk b s nc rows [] tr))
            = errors_logged tr
              @ List.map_filter (\<lambda>(i, es). f i es) (enumerate (length (bulk_inserts tr)) X)"
      by blast
    obtain res tr1 where h: "handle_rows dictify ?e vk b s nc rows [] tr = (res, tr1)"
      by (cases "handle_rows dictify ?e vk b s nc rows [] tr")
    show ?thesis
    proof (cases res)
      case (Inl e)
      then show ?thesis using X h unfolding Cons handle_Cons by (simp add: Let_def)
    next
      case (Inr rest)
      then show ?thesis using X h unfolding Cons handle_Cons
        by (simp add: Let_def bulk_inserts_batch_insert errors_logged_batch_insert
            bulk_inserts_append enumerate_append_eq List.map_filter_def split: option.splits)
    qed
  qed
qed

theorem batch_failure_isolated_witness:
  "fst (handle (\<lambda>r. Inr [''occurrence_id'' \<mapsto> PStr (hd r)])
          (\<lambda>h es. if length (bulk_inserts h) = 1 then Some (DatabaseError ''duplicate key'')
                   else None)
          {} 1 True True [[''header''], [''A''], [''B''], [''C'']] []) = None
   \<and> map length (bulk_inserts (snd (handle (\<lambda>r. Inr [''occurrence_id'' \<mapsto> PStr (hd r)])
          (\<lambda>h es. if length (bulk_inserts h) = 1 then Some (DatabaseError ''duplicate key'')
                   else None)
          {} 1 True True [[''header''], [''A''], [''B''], [''C'']] []))) = [1, 1, 1]
   \<and> errors_logged (snd (handle (\<lambda>r. Inr [''occurrence_id'' \<mapsto> PStr (hd r)])
          (\<lambda>h es. if length (bulk_inserts h) = 1 then Some (DatabaseError ''duplicate key'')
                   else None)
          {} 1 True True [[''header''], [''A''], [''B''], [''C'']] []))
       = [DatabaseError ''duplicate key'']"
  using batch_failure_isolated
    [of "\<lambda>h es. if length (bulk_inserts h) = 1 then Some (DatabaseError ''duplicate key'')
                  else None"
        "[]" "[]" "DatabaseError ''duplicate key''"
        "\<lambda>r. Inr [''occurrence_id'' \<mapsto> PStr (hd r)]" "{}" 1 True True
        "[[''header''], [''A''], [''B''], [''C'']]"
        "\<lambda>i es. if i = 1 then Some (DatabaseError ''duplicate key'') else None"]
  by (simp add: handle_def batch_insert_def Let_def)


section \<open>Properties of the validator\<close>

lemma sets_add_error [simp]: "sets (add_error_for_entity t i e v) = sets v"
  by (simp add: add_error_for_entity_def Let_def)

lemma validate_numeric_state: "snd (validate_numeric t key entity v) = v"
proof (cases "entity key")
  case None
  then show ?thesis by (simp add: validate_numeric_def)
next
  case (Some x)
  then show ?thesis
    by (cases x) (simp_all add: validate_numeric_def)
qed

lemma validate_numeric_raises:
  "entity key = Some (PStr s) \<Longrightarrow> \<not> decimal_syntax s \<Longrightarrow>
   validate_numeric t key entity v = (Inl InvalidOperation, v)"
  by (simp add: validate_numeric_def)

lemma sets_validate_length: "sets (snd (validate_length t key entity n v)) = sets v"
  by (simp add: validate_length_def Let_def split: option.splits sum.splits)

lemma for_each_invariant:
  assumes "\<And>x v. P v \<Longrightarrow> P (snd (f x v))" and "P v"
  shows "P (snd (for_each f xs v))"
  using assms(2)
proof (induction xs arbitrary: v)
  case Nil
  then show ?case by simp
next
  case (Cons x xs)
  from Cons.prems have "P (snd (f x v))" by (rule assms(1))
  then show ?case
    using Cons.IH[of "snd (f x v)"]
    by (cases "f x v") (auto split: sum.splits)
qed

lemma sets_for_each:
  assumes "\<And>x v. sets (snd (f x v)) = sets v"
  shows "sets (snd (for_each f xs v)) = sets v"
  using for_each_invariant[of "\<lambda>v'. sets v' = sets v" f v xs] assms by simp

lemma guid_set_key: "table_name corpus_occurrences @ '':'' @ ''guid'' = ''corpus_occurrences:guid''"
  by simp

lemma validate_unique_guid:
  assumes "entity ''guid'' = Some g" and "entity ''occurrence_id'' = Some k"
  shows "validate_unique corpus_occurrences ''guid'' entity v =
     (let seen = (case sets v ''corpus_occurrences:guid'' of None \<Rightarrow> {} | Some s \<Rightarrow> s) in
      if g \<noteq> PNone \<and> py_in g seen
      then (Inr (Some (''Duplicate guid found'', g)),
            add_error_for_entity corpus_occurrences k (''Duplicate guid found'', g) v)
      else (Inr None, v\<lparr>sets := (sets v)(''corpus_occurrences:guid'' \<mapsto> py_add g seen)\<rparr>))"
proof (cases "sets v ''corpus_occurrences:guid''")
  case None
  then show ?thesis
    using assms by (simp add: validate_unique_def Let_def dom_def py_in_def)
next
  case (Some s)
  then show ?thesis
    using assms by (auto simp: validate_unique_def Let_def dom_def)
qed

lemma validate_unique_valid_ids:
  "sets (snd (validate_unique corpus_occurrences ''guid'' entity v)) ''valid_occurrence_ids''
     = sets v ''valid_occurrence_ids''"
  by (simp add: validate_unique_def Let_def split: option.splits)

lemma validate_occurrence_sets:
  assumes "validate_unique corpus_occurrences ''guid'' entity v = (r1, v1)"
  shows "sets (snd (validate_occurrence entity v)) =
     (case r1 of
        Inl ex \<Rightarrow> sets v1
      | Inr (Some e) \<Rightarrow> sets v1
      | Inr None \<Rightarrow>
          (case sets v1 ''valid_occurrence_ids'' of
             None \<Rightarrow> sets v1
           | Some valid_set \<Rightarrow>
               (case entity ''occurrence_id'' of
                  None \<Rightarrow> sets v1
                | Some k \<Rightarrow> (sets v1)(''valid_occurrence_ids'' \<mapsto> py_add k valid_set))))"
proof -
  have loops: "sets (snd (case for_each (\<lambda>field. validate_length corpus_occurrences field entity 255)
                       occurrence_varchar_255_fields v2 of
                  (Inl ex, v3) \<Rightarrow> (Inl ex, v3)
                | (Inr u, v3) \<Rightarrow>
                    for_each (\<lambda>field. validate_numeric corpus_occurrences field entity)
                      occurrence_numeric_fields v3)) = sets v2" for v2
  proof -
    obtain r3 v3 where l: "for_each (\<lambda>field. validate_length corpus_occurrences field entity 255)
                       occurrence_varchar_255_fields v2 = (r3, v3)"
      by (cases "for_each (\<lambda>field. validate_length corpus_occurrences field entity 255)
                       occurrence_varchar_255_fields v2")
    have "sets v3 = sets v2"
      using sets_for_each[of "\<lambda>field. validate_length corpus_occurrences field entity 255"
          occurrence_varchar_255_fields v2] l
      by (simp add: sets_validate_length)
    moreover have "sets (snd (for_each (\<lambda>field. validate_numeric corpus_occurrences field entity)
                      occurrence_numeric_fields v3)) = sets v3"
      by (rule sets_for_each) (simp add: validate_numeric_state)
    ultimately show ?thesis using l by (cases r3) simp_all
  qed
  show ?thesis
    using assms
    by (simp add: validate_occurrence_def loops split: sum.splits option.splits)
qed

lemma occurrence_fields_head:
  "occurrence_fields = ''occurrence_id'' # tl occurrence_fields"
  "''occurrence_id'' \<notin> set (tl occurrence_fields)"
  by (simp_all add: occurrence_fields_def)

lemma occurrence_key_is_string_or_none:
  assumes "OccurencesHandler_dictify r = Inr d"
  shows "\<exists>x. d ''occurrence_id'' = Some x \<and> (x = PNone \<or> (\<exists>s. x = PStr s))"
proof -
  from assms have len: "length r = 75"
    by (simp add: OccurencesHandler_dictify_def split: if_splits)
  then obtain x r' where r: "r = x # r'" by (cases r) auto
  from assms len obtain r1 d0 d1 where
    p: "pop_fields occurrence_fields r Map.empty = Inr (r1, d0)"
    and t: "transform_invalid_booleans d0
              {''imaged'', ''accepted'', ''is_type'', ''valid_lat_lng'', ''cultivated''}
              [''y'', ''t''] = Inr d1"
    and d: "d = transform_empty_to_none d1 (dom d1)"
    by (auto simp: OccurencesHandler_dictify_def bind_exn_def split: sum.splits)
  from p have "pop_fields (tl occurrence_fields) r' [''occurrence_id'' \<mapsto> PStr x] = Inr (r1, d0)"
    unfolding r by (subst (asm) occurrence_fields_head(1)) (simp add: bind_exn_def pop0_def)
  then have "d0 ''occurrence_id'' = Some (PStr x)"
    using pop_fields_other[of "tl occurrence_fields" r' _ r1 d0 "''occurrence_id''"]
      occurrence_fields_head(2)
    by simp
  then have "d1 ''occurrence_id'' = Some (PStr x)"
    using t by (auto simp: transform_invalid_booleans_def split: if_splits)
  then show ?thesis
    using d by (simp add: transform_empty_to_none_def dom_def)
qed

lemma type_key_is_int:
  assumes "TypesHandler_dictify r = Inr d"
  shows "\<exists>n. d ''occurrence_id'' = Some (PInt n)"
proof -
  from assms obtain x r1 n r2 d0 where
    p: "pop_fields type_fields r1 [''occurrence_id'' \<mapsto> PInt n] = Inr (r2, d0)"
    and d: "d = transform_empty_to_none d0 (dom d0)"
    by (auto simp: TypesHandler_dictify_def bind_exn_def pop0_def split: sum.splits list.splits)
  have "''occurrence_id'' \<notin> set type_fields"
    by (simp add: type_fields_def)
  with p have "d0 ''occurrence_id'' = Some (PInt n)"
    using pop_fields_other[of type_fields r1 _ r2 d0 "''occurrence_id''"] by simp
  then show ?thesis
    using d by (simp add: transform_empty_to_none_def dom_def)
qed

lemma py_in_int_strings:
  assumes "\<forall>x\<in>valid. x = PNone \<or> (\<exists>s. x = PStr s)"
  shows "\<not> py_in (PInt n) valid"
  using assms by (auto simp: py_in_def py_eq_def)

lemma validate_occurrence_keys:
  assumes "\<And>k. entity ''occurrence_id'' = Some k \<Longrightarrow> k = PNone \<or> (\<exists>s. k = PStr s)"
    and "\<exists>S. sets v ''valid_occurrence_ids'' = Some S \<and> (\<forall>x\<in>S. x = PNone \<or> (\<exists>s. x = PStr s))"
  shows "\<exists>S. sets (snd (validate_occurrence entity v)) ''valid_occurrence_ids'' = Some S
            \<and> (\<forall>x\<in>S. x = PNone \<or> (\<exists>s. x = PStr s))"
proof -
  obtain r1 v1 where u: "validate_unique corpus_occurrences ''guid'' entity v = (r1, v1)"
    by (cases "validate_unique corpus_occurrences ''guid'' entity v")
  have v1: "sets v1 ''valid_occurrence_ids'' = sets v ''valid_occurrence_ids''"
    using validate_unique_valid_ids[of entity v] u by simp
  show ?thesis
    unfolding validate_occurrence_sets[OF u]
    using assms v1
    by (auto simp: py_add_def split: sum.splits option.splits)
qed

lemma validate_occurrences_keys:
  "\<exists>S. sets (snd (validate_occurrences occ_file Validator_init)) ''valid_occurrence_ids'' = Some S
       \<and> (\<forall>x\<in>S. x = PNone \<or> (\<exists>s. x = PStr s))"
proof (cases occ_file)
  case Nil
  then show ?thesis by (simp add: validate_occurrences_def Validator_init_def)
next
  case (Cons header rows)
  let ?P = "\<lambda>v. \<exists>S. sets v ''valid_occurrence_ids'' = Some S
                 \<and> (\<forall>x\<in>S. x = PNone \<or> (\<exists>s. x = PStr s))"
  have "?P (snd (for_each (\<lambda>r v'. case OccurencesHandler_dictify r of
                             Inl e \<Rightarrow> (Inl e, v')
                           | Inr d \<Rightarrow> validate_occurrence d v') rows Validator_init))"
  proof (rule for_each_invariant[of ?P])
    show "?P Validator_init" by (simp add: Validator_init_def)
  next
    fix r and v :: validator
    assume P: "?P v"
    show "?P (snd (case OccurencesHandler_dictify r of
                     Inl e \<Rightarrow> (Inl e, v) | Inr d \<Rightarrow> validate_occurrence d v))"
    proof (cases "OccurencesHandler_dictify r")
      case (Inl e)
      then show ?thesis using P by simp
    next
      case (Inr d)
      from occurrence_key_is_string_or_none[OF Inr]
      have "\<And>k. d ''occurrence_id'' = Some k \<Longrightarrow> k = PNone \<or> (\<exists>s. k = PStr s)"
        by auto
      from validate_occurrence_keys[OF this P] show ?thesis using Inr by simp
    qed
  qed
  then show ?thesis using Cons by (simp add: validate_occurrences_def)
qed

section \<open>The claims about the validator\<close>

text \<open>
  Claim C3 says that \<^verbatim>\<open>validate_numeric\<close> records an error and returns normally when a
  value does not parse as a decimal number. \<^verbatim>\<open>Decimal("abc")\<close> raises
  \<^verbatim>\<open>decimal.InvalidOperation\<close>, which the handler \<^verbatim>\<open>except ValueError\<close> does not catch: the
  exception leaves \<^verbatim>\<open>validate_numeric\<close>, and no error is recorded.
\<close>

theorem validate_numeric_raises_on_abc:
  "validate_numeric corpus_occurrences ''minimum_elevation_in_meters''
     [''occurrence_id'' \<mapsto> PStr ''OCC1'', ''minimum_elevation_in_meters'' \<mapsto> PStr ''abc'']
     Validator_init
   = (Inl InvalidOperation, Validator_init)"
  by (simp add: validate_numeric_def decimal_syntax_def decimal_number_def decimal_special_def
      decimal_exponent_def strip_def isspace_def drop_sign_def isdigit_def lower_def
      lower_char_def)

text \<open>
  Claim C8: for an occurrence with a \<^verbatim>\<open>guid\<close> and an \<^verbatim>\<open>occurrence_id\<close>, the uniqueness check
  of the \<^verbatim>\<open>guid\<close> reports a duplicate exactly when the \<^verbatim>\<open>guid\<close> is not null and was seen
  before; \<^verbatim>\<open>validate_occurrence\<close> adds the \<^verbatim>\<open>occurrence_id\<close> to the set of valid keys
  exactly when the check reports nothing, and then the \<^verbatim>\<open>guid\<close> joins the seen values; a
  duplicate is recorded as an error of the entity and leaves both sets as they were.
\<close>

theorem valid_key_iff_guid_unique:
  assumes "entity ''guid'' = Some g" and "entity ''occurrence_id'' = Some k"
    and "sets v ''valid_occurrence_ids'' = Some valid"
  shows "let seen = (case sets v ''corpus_occurrences:guid'' of None \<Rightarrow> {} | Some s \<Rightarrow> s);
             duplicate = (g \<noteq> PNone \<and> py_in g seen);
             error = (''Duplicate guid found'', g);
             v' = snd (validate_occurrence entity v)
         in validate_unique corpus_occurrences ''guid'' entity v
              = (if duplicate
                 then (Inr (Some error), add_error_for_entity corpus_occurrences k error v)
                 else (Inr None,
                       v\<lparr>sets := (sets v)(''corpus_occurrences:guid'' \<mapsto> py_add g seen)\<rparr>))
          \<and> sets v' ''valid_occurrence_ids''
              = Some (if duplicate then valid else py_add k valid)
          \<and> (if duplicate then sets v' ''corpus_occurrences:guid'' = Some seen
              else sets v' ''corpus_occurrences:guid'' = Some (py_add g seen))"
proof -
  define seen where "seen = (case sets v ''corpus_occurrences:guid'' of None \<Rightarrow> {} | Some s \<Rightarrow> s)"
  have u: "validate_unique corpus_occurrences ''guid'' entity v
      = (if g \<noteq> PNone \<and> py_in g seen
         then (Inr (Some (''Duplicate guid found'', g)),
               add_error_for_entity corpus_occurrences k (''Duplicate guid found'', g) v)
         else (Inr None, v\<lparr>sets := (sets v)(''corpus_occurrences:guid'' \<mapsto> py_add g seen)\<rparr>))"
    using validate_unique_guid[OF assms(1,2), of v] by (simp add: seen_def Let_def)
  show ?thesis
  proof (cases "g \<noteq> PNone \<and> py_in g seen")
    case True
    then have s: "sets v ''corpus_occurrences:guid'' = Some seen"
      by (auto simp: seen_def py_in_def split: option.splits)
    from u True have "validate_unique corpus_occurrences ''guid'' entity v
        = (Inr (Some (''Duplicate guid found'', g)),
           add_error_for_entity corpus_occurrences k (''Duplicate guid found'', g) v)"
      by simp
    from validate_occurrence_sets[OF this] u True s assms(3) show ?thesis
      by (simp add: Let_def seen_def[symmetric])
  next
    case False
    with u have "validate_unique corpus_occurrences ''guid'' entity v
        = (Inr None, v\<lparr>sets := (sets v)(''corpus_occurrences:guid'' \<mapsto> py_add g seen)\<rparr>)"
      by (simp del: de_Morgan_conj)
    from validate_occurrence_sets[OF this] u False assms(2,3) show ?thesis
      by (simp add: Let_def seen_def[symmetric] del: de_Morgan_conj)
  qed
qed

theorem valid_key_iff_guid_unique_witness:
  "sets (snd (validate_occurrence [''guid'' \<mapsto> PStr ''G1'', ''occurrence_id'' \<mapsto> PStr ''OCC1'']
                Validator_init)) ''valid_occurrence_ids'' = Some {PStr ''OCC1''}
   \<and> sets (snd (validate_occurrence [''guid'' \<mapsto> PStr ''G1'', ''occurrence_id'' \<mapsto> PStr ''OCC2'']
        \<lparr>errors = (\<lambda>t. Map.empty),
         sets = [''valid_occurrence_ids'' \<mapsto> {PStr ''OCC1''},
                 ''corpus_occurrences:guid'' \<mapsto> {PStr ''G1''}]\<rparr>)) ''valid_occurrence_ids''
       = Some {PStr ''OCC1''}
   \<and> fst (validate_unique corpus_occurrences ''guid''
             [''guid'' \<mapsto> PStr ''G1'', ''occurrence_id'' \<mapsto> PStr ''OCC2'']
        \<lparr>errors = (\<lambda>t. Map.empty),
         sets = [''valid_occurrence_ids'' \<mapsto> {PStr ''OCC1''},
                 ''corpus_occurrences:guid'' \<mapsto> {PStr ''G1''}]\<rparr>)
       = Inr (Some (''Duplicate guid found'', PStr ''G1''))"
  using valid_key_iff_guid_unique
          [of "[''guid'' \<mapsto> PStr ''G1'', ''occurrence_id'' \<mapsto> PStr ''OCC1'']"
              "PStr ''G1''" "PStr ''OCC1''" Validator_init "{}"]
        valid_key_iff_guid_unique
          [of "[''guid'' \<mapsto> PStr ''G1'', ''occurrence_id'' \<mapsto> PStr ''OCC2'']"
              "PStr ''G1''" "PStr ''OCC2''"
              "\<lparr>errors = (\<lambda>t. Map.empty),
                sets = [''valid_occurrence_ids'' \<mapsto> {PStr ''OCC1''},
                        ''corpus_occurrences:guid'' \<mapsto> {PStr ''G1''}]\<rparr>"
              "{PStr ''OCC1''}"]
  by (simp add: Validator_init_def Let_def py_in_def py_eq_def py_add_def)

text \<open>
  Claim C2: the set of valid keys that the validation of the occurrences builds holds only
  strings and null; the key of a decoded type record is an integer, which is equal to none
  of them. So with \<^verbatim>\<open>skip_fkey_validation\<close> false, \<^verbatim>\<open>handle\<close> with the decoder of the types
  hands no row to the sink, and \<^verbatim>\<open>validate_fkey\<close> records an invalid foreign key for every
  decoded type record.
\<close>

theorem type_keys_never_valid:
  "(\<exists>S. sets (snd (validate_occurrences occ_file Validator_init)) ''valid_occurrence_ids'' = Some S
        \<and> (\<forall>x\<in>S. x = PNone \<or> (\<exists>s. x = PStr s)))
   \<and> ((\<forall>x\<in>valid. x = PNone \<or> (\<exists>s. x = PStr s)) \<longrightarrow>
        concat (bulk_inserts
                  (snd (handle TypesHandler_dictify execute valid b False nc types_file tr)))
          = concat (bulk_inserts tr)
        \<and> (\<forall>r d (v :: validator). TypesHandler_dictify r = Inr d
                   \<and> sets v ''valid_occurrence_ids'' = Some valid \<longrightarrow>
             (\<exists>n. d ''occurrence_id'' = Some (PInt n)
                 \<and> validate_fkey corpus_types d v
                     = (Inr (Some (''Invalid foreign key'', PInt n)),
                        add_error_for_entity corpus_types (PInt n)
                          (''Invalid foreign key'', PInt n) v)
                 \<and> errors (snd (validate_fkey corpus_types d v)) corpus_types (PInt n)
                     = Some ((case errors v corpus_types (PInt n) of None \<Rightarrow> [] | Some es \<Rightarrow> es)
                             @ [(''Invalid foreign key'', PInt n)]))))"
proof (intro conjI impI allI)
  show "\<exists>S. sets (snd (validate_occurrences occ_file Validator_init)) ''valid_occurrence_ids''
              = Some S
           \<and> (\<forall>x\<in>S. x = PNone \<or> (\<exists>s. x = PStr s))"
    by (rule validate_occurrences_keys)
next
  assume valid: "\<forall>x\<in>valid. x = PNone \<or> (\<exists>s. x = PStr s)"
  have no: "\<not> py_in k valid" if "TypesHandler_dictify r = Inr d" "d ''occurrence_id'' = Some k"
    for r d k
    using type_key_is_int[OF that(1)] that(2) py_in_int_strings[OF valid] by auto
  show "concat (bulk_inserts
                  (snd (handle TypesHandler_dictify execute valid b False nc types_file tr)))
          = concat (bulk_inserts tr)"
  proof (cases types_file)
    case Nil
    then show ?thesis by (simp add: handle_def)
  next
    case (Cons header rows)
    from handle_rows_nothing_forwarded[of TypesHandler_dictify valid execute b nc rows tr] no
    have "concat (bulk_inserts
            (snd (handle_rows TypesHandler_dictify execute valid b False nc rows [] tr)))
          = concat (bulk_inserts tr)"
      and "\<forall>rest. fst (handle_rows TypesHandler_dictify execute valid b False nc rows [] tr)
             = Inr rest \<longrightarrow> rest = []"
      by blast+
    then show ?thesis
      unfolding Cons handle_Cons
      by (auto split: prod.splits sum.splits)
  qed
next
  fix r d and v :: validator
  assume valid: "\<forall>x\<in>valid. x = PNone \<or> (\<exists>s. x = PStr s)"
    and a: "TypesHandler_dictify r = Inr d \<and> sets v ''valid_occurrence_ids'' = Some valid"
  from type_key_is_int[of r d] a obtain n where n: "d ''occurrence_id'' = Some (PInt n)"
    by auto
  show "\<exists>n. d ''occurrence_id'' = Some (PInt n)
          \<and> validate_fkey corpus_types d v
              = (Inr (Some (''Invalid foreign key'', PInt n)),
                 add_error_for_entity corpus_types (PInt n) (''Invalid foreign key'', PInt n) v)
          \<and> errors (snd (validate_fkey corpus_types d v)) corpus_types (PInt n)
              = Some ((case errors v corpus_types (PInt n) of None \<Rightarrow> [] | Some es \<Rightarrow> es)
                      @ [(''Invalid foreign key'', PInt n)])"
    using n a py_in_int_strings[OF valid, of n]
    by (simp add: validate_fkey_def add_error_for_entity_def Let_def)
qed

theorem type_keys_never_valid_witness:
  "concat (bulk_inserts (snd (handle TypesHandler_dictify (\<lambda>h es. None) {PStr ''12''} 1 False True
             [replicate 19 ''header'', ''12'' # replicate 18 ''x''] []))) = []
   \<and> (\<exists>n. fst (validate_fkey corpus_types
                   (projr (TypesHandler_dictify (''12'' # replicate 18 ''x'')))
                   \<lparr>errors = (\<lambda>t. Map.empty),
                    sets = [''valid_occurrence_ids'' \<mapsto> {PStr ''12''}]\<rparr>)
           = Inr (Some (''Invalid foreign key'', PInt n)))"
proof -
  let ?v = "\<lparr>errors = (\<lambda>t. Map.empty), sets = [''valid_occurrence_ids'' \<mapsto> {PStr ''12''}]\<rparr>"
  have i: "int_of_str ''12'' = Some 12"
    by (simp add: int_of_str_def strip_def isspace_def drop_sign_def isdigit_def
        digits_value_def)
  from pop_fields_long[of type_fields "replicate 18 ''x''" "[''occurrence_id'' \<mapsto> PInt 12]"]
  obtain r2 d' where
    p: "pop_fields type_fields (replicate 18 ''x'') [''occurrence_id'' \<mapsto> PInt 12] = Inr (r2, d')"
    by (auto simp: length_type_fields)
  have d: "TypesHandler_dictify (''12'' # replicate 18 ''x'')
      = Inr (transform_empty_to_none d' (dom d'))"
    using i p by (simp add: TypesHandler_dictify_def bind_exn_def pop0_def)
  have v: "\<forall>x\<in>{PStr ''12''}. x = PNone \<or> (\<exists>s. x = PStr s)"
    by simp
  note t = type_keys_never_valid
             [of "[]" "{PStr ''12''}" "\<lambda>h es. None" 1 True
                 "[replicate 19 ''header'', ''12'' # replicate 18 ''x'']" "[]"]
  note bc = conjunct2[OF t, THEN mp, OF v]
  have s: "sets ?v ''valid_occurrence_ids'' = Some {PStr ''12''}"
    by simp
  from bc[THEN conjunct2, rule_format, OF conjI, OF d s]
  obtain n where "validate_fkey corpus_types (transform_empty_to_none d' (dom d')) ?v
      = (Inr (Some (''Invalid foreign key'', PInt n)),
         add_error_for_entity corpus_types (PInt n) (''Invalid foreign key'', PInt n) ?v)"
    by blast
  then have "fst (validate_fkey corpus_types
                   (projr (TypesHandler_dictify (''12'' # replicate 18 ''x''))) ?v)
      = Inr (Some (''Invalid foreign key'', PInt n))"
    unfolding d by simp
  with bc[THEN conjunct1] show ?thesis
    by (intro conjI exI[of _ n]) simp_all
qed

end
